theory Spec2Isabelle
  imports Complex_Main
begin

section \<open>Add-ons to the SciPy morphology package (kraken/lib/morph.py)\<close>

text \<open>
  The module is glue over NumPy and \<open>scipy.ndimage\<close>. Its own functions are embedded
  below, each from its source text. The library routines it delegates to
  (\<open>measurements.label\<close>, \<open>measurements.find_objects\<close>, \<open>filters.maximum_filter\<close>,
  \<open>filters.minimum_filter\<close>, \<open>filters.uniform_filter\<close>,
  \<open>morphology.distance_transform_edt\<close>) are parameters of the embedded functions: a
  library routine is a function that returns either the exception it raises (\<open>Inl\<close>)
  or its result (\<open>Inr\<close>).
\<close>

subsection \<open>Exceptions and arrays\<close>

text \<open>
  The exceptions the module's own statements raise, and \<open>Raised e\<close> for an exception
  \<open>e\<close> that comes out of a library routine.
\<close>

datatype 'e py_error = AssertionError | ValueError | IndexError | OverflowError | Raised 'e

definition raised :: "'e + 'a \<Rightarrow> 'e py_error + 'a" where
  "raised r = (case r of Inl e \<Rightarrow> Inl (Raised e) | Inr x \<Rightarrow> Inr x)"

datatype dtype =
  Bool | Int8 | UInt8 | Int16 | UInt16 | Int32 | UInt32 | Int64 | UInt64
  | Float32 | Float64 | Object

text \<open>
  An n-dimensional array: its shape, its dtype and its elements in row-major order
  (what \<open>ravel()\<close> returns).
\<close>

record 'a ndarray =
  shape :: "nat list"
  dtype :: dtype
  data :: "'a list"

text \<open>\<open>np.zeros(shape, t)\<close>.\<close>

definition np_zeros :: "nat list \<Rightarrow> dtype \<Rightarrow> 'a::zero ndarray" where
  "np_zeros shp t = \<lparr>shape = shp, dtype = t, data = replicate (prod_list shp) 0\<rparr>"

subsection \<open>check_binary\<close>

text \<open>
  \<^verbatim>\<open>assert image.dtype == 'B' or image.dtype == 'i' or image.dtype == np.dtype('bool')\<close>
  \<^verbatim>\<open>assert np.amin(image) >= 0 and np.amax(image) <= 1\<close>
  The dtype characters \<open>'B'\<close> and \<open>'i'\<close> are uint8 and int32. \<open>np.amin\<close> of an array
  without elements raises ValueError.
\<close>

definition check_binary :: "real ndarray \<Rightarrow> 'e py_error + unit" where
  "check_binary img =
     (if \<not> (dtype img = UInt8 \<or> dtype img = Int32 \<or> dtype img = Bool)
      then Inl AssertionError
      else if data img = [] then Inl ValueError
      else if \<not> (0 \<le> Min (set (data img)) \<and> Max (set (data img)) \<le> 1)
      then Inl AssertionError
      else Inr ())"

subsection \<open>Dilation, erosion, opening and closing\<close>

text \<open>
  \<open>maximum_filter\<close> and \<open>minimum_filter\<close> are the library's filters in their default
  boundary mode, called as \<open>filter(image, size, origin=origin)\<close>.
\<close>

definition r_dilation ::
  "(real ndarray \<Rightarrow> 's \<Rightarrow> 'o \<Rightarrow> 'e + real ndarray) \<Rightarrow> real ndarray \<Rightarrow> 's \<Rightarrow> 'o
   \<Rightarrow> 'e py_error + real ndarray" where
  "r_dilation maximum_filter img sz origin = raised (maximum_filter img sz origin)"

definition r_erosion ::
  "(real ndarray \<Rightarrow> 's \<Rightarrow> 'o \<Rightarrow> 'e + real ndarray) \<Rightarrow> real ndarray \<Rightarrow> 's \<Rightarrow> 'o
   \<Rightarrow> 'e py_error + real ndarray" where
  "r_erosion minimum_filter img sz origin = raised (minimum_filter img sz origin)"

definition r_opening ::
  "(real ndarray \<Rightarrow> 's \<Rightarrow> 'o \<Rightarrow> 'e + real ndarray) \<Rightarrow>
   (real ndarray \<Rightarrow> 's \<Rightarrow> 'o \<Rightarrow> 'e + real ndarray) \<Rightarrow> real ndarray \<Rightarrow> 's \<Rightarrow> 'o
   \<Rightarrow> 'e py_error + real ndarray" where
  "r_opening maximum_filter minimum_filter img sz origin =
     (case check_binary img of
        Inl e \<Rightarrow> Inl e
      | Inr _ \<Rightarrow>
          (case r_erosion minimum_filter img sz origin of
             Inl e \<Rightarrow> Inl e
           | Inr img2 \<Rightarrow> r_dilation maximum_filter img2 sz origin))"

text \<open>
  \<open>r_closing\<close> takes \<open>origin\<close> and passes the literal \<open>0\<close> to both stages:
  \<^verbatim>\<open>image = r_dilation(image, size, origin=0)\<close>
  \<^verbatim>\<open>return r_erosion(image, size, origin=0)\<close>
\<close>

definition r_closing ::
  "(real ndarray \<Rightarrow> 's \<Rightarrow> 'o \<Rightarrow> 'e + real ndarray) \<Rightarrow>
   (real ndarray \<Rightarrow> 's \<Rightarrow> 'o \<Rightarrow> 'e + real ndarray) \<Rightarrow> real ndarray \<Rightarrow> 's \<Rightarrow> 'o::zero
   \<Rightarrow> 'e py_error + real ndarray" where
  "r_closing maximum_filter minimum_filter img sz origin =
     (case check_binary img of
        Inl e \<Rightarrow> Inl e
      | Inr _ \<Rightarrow>
          (case r_dilation maximum_filter img sz 0 of
             Inl e \<Rightarrow> Inl e
           | Inr img2 \<Rightarrow> r_erosion minimum_filter img2 sz 0))"

text \<open>
  The uniform-filter variants. \<open>uniform_filter img sz output origin cval\<close> is the
  library call
  \<^verbatim>\<open>filters.uniform_filter(image, size, output=output, origin=origin, mode='constant', cval=cval)\<close>
  It writes into the array \<open>output\<close> it is given: its result is the value it writes
  at each position of that array, so the shape and the dtype of \<open>output\<close> stay.
\<close>

definition fill :: "'a ndarray \<Rightarrow> (nat \<Rightarrow> 'a) \<Rightarrow> 'a ndarray" where
  "fill output w = output\<lparr>data := map w [0..<length (data output)]\<rparr>"

text \<open>\<open>np.array(mask, 'i')\<close> of a boolean array: True is 1, False is 0, dtype int32.\<close>

definition mask_array :: "'a ndarray \<Rightarrow> ('a \<Rightarrow> bool) \<Rightarrow> real ndarray" where
  "mask_array a p =
     \<lparr>shape = shape a, dtype = Int32, data = map (\<lambda>x. if p x then 1 else 0) (data a)\<rparr>"

definition rb_dilation ::
  "(real ndarray \<Rightarrow> 's \<Rightarrow> real ndarray \<Rightarrow> 'o \<Rightarrow> real \<Rightarrow> 'e + (nat \<Rightarrow> real)) \<Rightarrow>
   real ndarray \<Rightarrow> 's \<Rightarrow> 'o \<Rightarrow> 'e py_error + real ndarray" where
  "rb_dilation uniform_filter img sz origin =
     (let output = np_zeros (shape img) Float32 in
      case uniform_filter img sz output origin 0 of
        Inl e \<Rightarrow> Inl (Raised e)
      | Inr w \<Rightarrow> Inr (mask_array (fill output w) (\<lambda>x. 0 < x)))"

definition rb_erosion ::
  "(real ndarray \<Rightarrow> 's \<Rightarrow> real ndarray \<Rightarrow> 'o \<Rightarrow> real \<Rightarrow> 'e + (nat \<Rightarrow> real)) \<Rightarrow>
   real ndarray \<Rightarrow> 's \<Rightarrow> 'o \<Rightarrow> 'e py_error + real ndarray" where
  "rb_erosion uniform_filter img sz origin =
     (let output = np_zeros (shape img) Float32 in
      case uniform_filter img sz output origin 1 of
        Inl e \<Rightarrow> Inl (Raised e)
      | Inr w \<Rightarrow> Inr (mask_array (fill output w) (\<lambda>x. x = 1)))"

definition rb_opening ::
  "(real ndarray \<Rightarrow> 's \<Rightarrow> real ndarray \<Rightarrow> 'o \<Rightarrow> real \<Rightarrow> 'e + (nat \<Rightarrow> real)) \<Rightarrow>
   real ndarray \<Rightarrow> 's \<Rightarrow> 'o \<Rightarrow> 'e py_error + real ndarray" where
  "rb_opening uniform_filter img sz origin =
     (case rb_erosion uniform_filter img sz origin of
        Inl e \<Rightarrow> Inl e
      | Inr img2 \<Rightarrow> rb_dilation uniform_filter img2 sz origin)"

definition rb_closing ::
  "(real ndarray \<Rightarrow> 's \<Rightarrow> real ndarray \<Rightarrow> 'o \<Rightarrow> real \<Rightarrow> 'e + (nat \<Rightarrow> real)) \<Rightarrow>
   real ndarray \<Rightarrow> 's \<Rightarrow> 'o \<Rightarrow> 'e py_error + real ndarray" where
  "rb_closing uniform_filter img sz origin =
     (case rb_dilation uniform_filter img sz origin of
        Inl e \<Rightarrow> Inl e
      | Inr img2 \<Rightarrow> rb_erosion uniform_filter img2 sz origin)"

text \<open>The grayscale variants. The opening and the closing call the \<open>r_\<close> stages.\<close>

definition rg_dilation ::
  "(real ndarray \<Rightarrow> 's \<Rightarrow> 'o \<Rightarrow> 'e + real ndarray) \<Rightarrow> real ndarray \<Rightarrow> 's \<Rightarrow> 'o
   \<Rightarrow> 'e py_error + real ndarray" where
  "rg_dilation maximum_filter img sz origin = raised (maximum_filter img sz origin)"

definition rg_erosion ::
  "(real ndarray \<Rightarrow> 's \<Rightarrow> 'o \<Rightarrow> 'e + real ndarray) \<Rightarrow> real ndarray \<Rightarrow> 's \<Rightarrow> 'o
   \<Rightarrow> 'e py_error + real ndarray" where
  "rg_erosion minimum_filter img sz origin = raised (minimum_filter img sz origin)"

definition rg_opening ::
  "(real ndarray \<Rightarrow> 's \<Rightarrow> 'o \<Rightarrow> 'e + real ndarray) \<Rightarrow>
   (real ndarray \<Rightarrow> 's \<Rightarrow> 'o \<Rightarrow> 'e + real ndarray) \<Rightarrow> real ndarray \<Rightarrow> 's \<Rightarrow> 'o
   \<Rightarrow> 'e py_error + real ndarray" where
  "rg_opening maximum_filter minimum_filter img sz origin =
     (case r_erosion minimum_filter img sz origin of
        Inl e \<Rightarrow> Inl e
      | Inr img2 \<Rightarrow> r_dilation maximum_filter img2 sz origin)"

definition rg_closing ::
  "(real ndarray \<Rightarrow> 's \<Rightarrow> 'o \<Rightarrow> 'e + real ndarray) \<Rightarrow>
   (real ndarray \<Rightarrow> 's \<Rightarrow> 'o \<Rightarrow> 'e + real ndarray) \<Rightarrow> real ndarray \<Rightarrow> 's \<Rightarrow> 'o::zero
   \<Rightarrow> 'e py_error + real ndarray" where
  "rg_closing maximum_filter minimum_filter img sz origin =
     (case r_dilation maximum_filter img sz 0 of
        Inl e \<Rightarrow> Inl e
      | Inr img2 \<Rightarrow> r_erosion minimum_filter img2 sz 0)"


subsection \<open>label and find_objects\<close>

text \<open>
  \<open>label(image, **kw)\<close> calls the library routine on the image; when that raises, it
  walks the list \<open>types\<close> and, for each name \<open>t\<close>, calls the routine on
  \<open>np.array(image, dtype=t)\<close> inside one \<open>try\<close>: an exception of the coercion or
  of the routine moves on to the next name. When no name succeeds it calls the routine
  on the image once more. \<open>routine\<close> is the library routine with the keyword
  arguments \<open>kw\<close> applied, \<open>np_array t image\<close> is \<open>np.array(image, dtype=t)\<close>.
  The list is the source's, its fourth entry \<open>"unit64"\<close> included.
\<close>

definition types :: "string list" where
  "types = [''int32'', ''uint32'', ''int64'', ''unit64'', ''int16'', ''uint16'']"

fun retry ::
  "('img \<Rightarrow> 'e + 'r) \<Rightarrow> (string \<Rightarrow> 'img \<Rightarrow> 'e + 'img) \<Rightarrow> string list \<Rightarrow> 'img \<Rightarrow> 'r option"
  where
  "retry routine np_array [] img = None"
| "retry routine np_array (t # ts) img =
     (case np_array t img of
        Inl _ \<Rightarrow> retry routine np_array ts img
      | Inr coerced \<Rightarrow>
          (case routine coerced of
             Inr r \<Rightarrow> Some r
           | Inl _ \<Rightarrow> retry routine np_array ts img))"

definition label ::
  "('img \<Rightarrow> 'e + 'r) \<Rightarrow> (string \<Rightarrow> 'img \<Rightarrow> 'e + 'img) \<Rightarrow> 'img \<Rightarrow> 'e + 'r" where
  "label routine np_array img =
     (case routine img of
        Inr r \<Rightarrow> Inr r
      | Inl _ \<Rightarrow>
          (case retry routine np_array types img of
             Some r \<Rightarrow> Inr r
           | None \<Rightarrow> routine img))"

definition find_objects ::
  "('img \<Rightarrow> 'e + 'r) \<Rightarrow> (string \<Rightarrow> 'img \<Rightarrow> 'e + 'img) \<Rightarrow> 'img \<Rightarrow> 'e + 'r" where
  "find_objects routine np_array img =
     (case routine img of
        Inr r \<Rightarrow> Inr r
      | Inl _ \<Rightarrow>
          (case retry routine np_array types img of
             Some r \<Rightarrow> Inr r
           | None \<Rightarrow> routine img))"

subsection \<open>Label arrays\<close>

text \<open>
  A label array is represented by its elements in row-major order; two label arrays
  of the same shape are two lists of the same length. Its dtype is int32: the dtype of
  the arrays \<open>scipy.ndimage.label\<close> returns, and of the arrays the module allocates
  itself (\<open>np.zeros(n, 'i')\<close>). Arithmetic on the elements of an int32 array wraps
  around, which \<open>wrap32\<close> writes out.
\<close>

definition wrap32 :: "int \<Rightarrow> int" where
  "wrap32 x = (x + 2 ^ 31) mod 2 ^ 32 - 2 ^ 31"

text \<open>Indexing with a Python or NumPy integer: a negative index counts from the end.\<close>

definition py_index :: "nat \<Rightarrow> int \<Rightarrow> nat option" where
  "py_index n i =
     (if 0 \<le> i \<and> i < int n then Some (nat i)
      else if - int n \<le> i \<and> i < 0 then Some (nat (int n + i))
      else None)"

definition getitem :: "'a list \<Rightarrow> int \<Rightarrow> 'e py_error + 'a" where
  "getitem xs i = (case py_index (length xs) i of None \<Rightarrow> Inl IndexError | Some j \<Rightarrow> Inr (xs ! j))"

definition setitem :: "'a list \<Rightarrow> int \<Rightarrow> 'a \<Rightarrow> 'e py_error + 'a list" where
  "setitem xs i v =
     (case py_index (length xs) i of None \<Rightarrow> Inl IndexError | Some j \<Rightarrow> Inr (xs[j := v]))"

text \<open>\<open>xs[idx]\<close> for an integer array \<open>idx\<close>: the result has the shape of \<open>idx\<close>.\<close>

definition take_items :: "'a list \<Rightarrow> int list \<Rightarrow> 'e py_error + 'a list" where
  "take_items xs idx =
     (if \<forall>i \<in> set idx. py_index (length xs) i \<noteq> None
      then Inr (map (\<lambda>i. xs ! the (py_index (length xs) i)) idx)
      else Inl IndexError)"

definition np_amin :: "int list \<Rightarrow> 'e py_error + int" where
  "np_amin xs = (if xs = [] then Inl ValueError else Inr (Min (set xs)))"

definition np_amax :: "int list \<Rightarrow> 'e py_error + int" where
  "np_amax xs = (if xs = [] then Inl ValueError else Inr (Max (set xs)))"

text \<open>\<open>np.unique\<close>: the distinct elements in ascending order.\<close>

definition np_unique :: "int list \<Rightarrow> int list" where
  "np_unique xs = remdups_adj (sort xs)"

subsection \<open>correspondences\<close>

definition q :: int where
  "q = 100000"

text \<open>
  \<open>combo = labels1 * q + labels2\<close>, element by element on int32 arrays of one shape:
  the product of an int32 array and the Python integer \<open>q\<close> is an int32 array, and so
  is its sum with an int32 array. (When \<open>labels2\<close> has a wider integer dtype only the
  product wraps around; the inputs evaluated below have small \<open>labels2\<close>, where the
  two agree. For arrays of different shapes NumPy broadcasts or raises ValueError;
  the specification speaks of arrays of one shape, and the model raises ValueError for the
  others.)
\<close>

definition combo :: "int list \<Rightarrow> int list \<Rightarrow> 'e py_error + int list" where
  "combo labels1 labels2 =
     (if length labels1 \<noteq> length labels2 then Inl ValueError
      else Inr (map2 (\<lambda>a b. wrap32 (wrap32 (a * q) + b)) labels1 labels2))"

text \<open>The result \<open>np.array([result // q, result % q])\<close> is the pair of its two rows.\<close>

definition correspondences :: "int list \<Rightarrow> int list \<Rightarrow> 'e py_error + int list \<times> int list" where
  "correspondences labels1 labels2 =
     (case np_amin labels1 of
        Inl e \<Rightarrow> Inl e
      | Inr m1 \<Rightarrow>
          if \<not> 0 \<le> m1 then Inl AssertionError
          else
            (case np_amin labels2 of
               Inl e \<Rightarrow> Inl e
             | Inr m2 \<Rightarrow>
                 if \<not> 0 \<le> m2 then Inl AssertionError
                 else
                   (case np_amax labels2 of
                      Inl e \<Rightarrow> Inl e
                    | Inr m \<Rightarrow>
                        if \<not> m < q then Inl AssertionError
                        else
                          (case combo labels1 labels2 of
                             Inl e \<Rightarrow> Inl e
                           | Inr c \<Rightarrow>
                               (let result = np_unique c
                                in Inr (map (\<lambda>v. v div q) result, map (\<lambda>v. v mod q) result))))))"

subsection \<open>propagate_labels_simple and propagate_labels\<close>

text \<open>\<^verbatim>\<open>for o, i in cors.T: outputs[o] = i\<close>\<close>

fun assign_loop :: "(int \<times> int) list \<Rightarrow> int list \<Rightarrow> 'e py_error + int list" where
  "assign_loop [] outputs = Inr outputs"
| "assign_loop ((o', i) # cs) outputs =
     (case setitem outputs o' i of
        Inl e \<Rightarrow> Inl e
      | Inr outputs' \<Rightarrow> assign_loop cs outputs')"

definition propagate_labels_simple ::
  "('img \<Rightarrow> 'e + int list \<times> int) \<Rightarrow> (string \<Rightarrow> 'img \<Rightarrow> 'e + 'img) \<Rightarrow> 'img \<Rightarrow> int list
   \<Rightarrow> 'e py_error + int list" where
  "propagate_labels_simple routine np_array regions labels =
     (case label routine np_array regions of
        Inl e \<Rightarrow> Inl (Raised e)
      | Inr (rlabels, _) \<Rightarrow>
          (case correspondences rlabels labels of
             Inl e \<Rightarrow> Inl e
           | Inr (os, is) \<Rightarrow>
               (case np_amax rlabels of
                  Inl e \<Rightarrow> Inl e
                | Inr m \<Rightarrow>
                    (case assign_loop (zip os is) (replicate (nat (m + 1)) 0) of
                       Inl e \<Rightarrow> Inl e
                     | Inr outputs \<Rightarrow>
                         (case setitem outputs 0 0 of
                            Inl e \<Rightarrow> Inl e
                          | Inr outputs' \<Rightarrow> take_items outputs' rlabels)))))"

text \<open>
  \<^verbatim>\<open>for o, i in cors.T:\<close>
  \<^verbatim>\<open>    if outputs[o] != 0: outputs[o] = oops\<close>
  \<^verbatim>\<open>    else: outputs[o] = i\<close>
  The source's marker \<open>oops = -(1 << 30)\<close> is \<open>oops_value\<close> here.
\<close>

definition oops_value :: int where
  "oops_value = - (2 ^ 30)"

fun conflict_loop :: "(int \<times> int) list \<Rightarrow> int list \<Rightarrow> 'e py_error + int list" where
  "conflict_loop [] outputs = Inr outputs"
| "conflict_loop ((o', i) # cs) outputs =
     (case getitem outputs o' of
        Inl e \<Rightarrow> Inl e
      | Inr v \<Rightarrow>
          (case setitem outputs o' (if v \<noteq> 0 then oops_value else i) of
             Inl e \<Rightarrow> Inl e
           | Inr outputs' \<Rightarrow> conflict_loop cs outputs'))"

text \<open>
  \<open>outputs[outputs == oops] = conflict\<close> stores \<open>conflict\<close> in an int32 array: a Python
  integer outside the int32 range is refused with OverflowError.
\<close>

definition replace_oops :: "int \<Rightarrow> int list \<Rightarrow> 'e py_error + int list" where
  "replace_oops conflict outputs =
     (if - (2 ^ 31) \<le> conflict \<and> conflict < 2 ^ 31
      then Inr (map (\<lambda>v. if v = oops_value then conflict else v) outputs)
      else Inl OverflowError)"

definition propagate_labels ::
  "('img \<Rightarrow> 'e + int list \<times> int) \<Rightarrow> (string \<Rightarrow> 'img \<Rightarrow> 'e + 'img) \<Rightarrow> 'img \<Rightarrow> int list
   \<Rightarrow> int \<Rightarrow> 'e py_error + int list" where
  "propagate_labels routine np_array img labels conflict =
     (case label routine np_array img of
        Inl e \<Rightarrow> Inl (Raised e)
      | Inr (rlabels, _) \<Rightarrow>
          (case correspondences rlabels labels of
             Inl e \<Rightarrow> Inl e
           | Inr (os, is) \<Rightarrow>
               (case np_amax rlabels of
                  Inl e \<Rightarrow> Inl e
                | Inr m \<Rightarrow>
                    (case conflict_loop (zip os is) (replicate (nat (m + 1)) 0) of
                       Inl e \<Rightarrow> Inl e
                     | Inr outputs \<Rightarrow>
                         (case replace_oops conflict outputs of
                            Inl e \<Rightarrow> Inl e
                          | Inr outputs' \<Rightarrow>
                              (case setitem outputs' 0 0 of
                                 Inl e \<Rightarrow> Inl e
                               | Inr outputs'' \<Rightarrow> take_items outputs'' rlabels))))))"

subsection \<open>select_regions\<close>

text \<open>
  The slice \<open>xs[-k:]\<close>. Python reads the start \<open>-k\<close> as an offset from the end when
  it is negative, and as an offset from the front otherwise: \<open>xs[-0:]\<close> is \<open>xs[0:]\<close>.
\<close>

definition py_tail :: "int \<Rightarrow> 'a list \<Rightarrow> 'a list" where
  "py_tail k xs =
     (let n = int (length xs); start = - k;
          lo = (if start < 0 then max (start + n) 0 else min start n)
      in drop (nat lo) xs)"

text \<open>
  \<^verbatim>\<open>for i in best[-nbest:]:\<close>
  \<^verbatim>\<open>    if scores[i] <= min: continue\<close>
  \<^verbatim>\<open>    keep[i+1] = 1\<close>
\<close>

fun keep_loop :: "'v::linorder list \<Rightarrow> 'v \<Rightarrow> nat list \<Rightarrow> int list \<Rightarrow> 'e py_error + int list" where
  "keep_loop scores min_score [] keep = Inr keep"
| "keep_loop scores min_score (i # rest) keep =
     (case getitem scores (int i) of
        Inl e \<Rightarrow> Inl e
      | Inr s \<Rightarrow>
          if s \<le> min_score then keep_loop scores min_score rest keep
          else
            (case setitem keep (int i + 1) 1 of
               Inl e \<Rightarrow> Inl e
             | Inr keep' \<Rightarrow> keep_loop scores min_score rest keep'))"

text \<open>
  \<open>label_routine\<close> and \<open>objects_routine\<close> are the library's \<open>label\<close> and
  \<open>find_objects\<close>; \<open>f\<close> scores an entry of the list \<open>find_objects\<close> returns.
  \<open>argsort\<close> is the library's \<open>np.argsort\<close>, called as \<open>np.argsort(scores)\<close>: it
  returns indices that sort the scores in ascending order, and which of two equal
  scores comes first is the library's choice.
\<close>

definition select_regions ::
  "('img \<Rightarrow> 'e + int list \<times> int) \<Rightarrow> (string \<Rightarrow> 'img \<Rightarrow> 'e + 'img) \<Rightarrow>
   (int list \<Rightarrow> 'e + 'obj list) \<Rightarrow> (string \<Rightarrow> int list \<Rightarrow> 'e + int list) \<Rightarrow>
   ('v list \<Rightarrow> nat list) \<Rightarrow>
   'img \<Rightarrow> ('obj \<Rightarrow> 'v::linorder) \<Rightarrow> 'v \<Rightarrow> int \<Rightarrow> 'e py_error + int list" where
  "select_regions label_routine np_array objects_routine np_array_labels argsort
     binary f min_score nbest =
     (case label label_routine np_array binary of
        Inl e \<Rightarrow> Inl (Raised e)
      | Inr (labels, n) \<Rightarrow>
          (case find_objects objects_routine np_array_labels labels of
             Inl e \<Rightarrow> Inl (Raised e)
           | Inr objects \<Rightarrow>
               (let scores = map f objects;
                    best = argsort scores;
                    keep = replicate (length objects + 1) 0
                in case keep_loop scores min_score (py_tail nbest best) keep of
                     Inl e \<Rightarrow> Inl e
                   | Inr keep' \<Rightarrow> take_items keep' labels)))"

subsection \<open>spread_labels\<close>





subsection \<open>Notions of the specification\<close>

text \<open>
  The binary check in the words of the specification: the dtype is none of uint8, int
  (\<open>'i'\<close>) or bool, or some element is below 0 or above 1.
\<close>

definition fails_binary_check :: "real ndarray \<Rightarrow> bool" where
  "fails_binary_check img =
     ((dtype img \<noteq> UInt8 \<and> dtype img \<noteq> Int32 \<and> dtype img \<noteq> Bool)
      \<or> (\<exists>v \<in> set (data img). v < 0 \<or> 1 < v))"

text \<open>An integer array of a given shape whose entries are all 0 or 1.\<close>

definition binary_mask_of_shape :: "nat list \<Rightarrow> real ndarray \<Rightarrow> bool" where
  "binary_mask_of_shape shp r =
     (shape r = shp \<and> dtype r = Int32 \<and> length (data r) = prod_list shp
      \<and> set (data r) \<subseteq> {0, 1})"






text \<open>The packed value of a pair of labels, as \<open>combo\<close> computes it.\<close>

definition pack :: "int \<Rightarrow> int \<Rightarrow> int" where
  "pack a b = wrap32 (wrap32 (a * q) + b)"

text \<open>
  For the propagation functions: the labels that occur in the columns of the
  correspondences for component \<open>k\<close>; the labels a component overlaps (the labels of
  the pixels whose component number is \<open>r\<close>); and what the loop of \<open>propagate_labels\<close>
  leaves in \<open>outputs\<close> for a component that overlaps the set \<open>N\<close> of nonzero labels.
\<close>

definition pairs_at :: "(int \<times> int) list \<Rightarrow> nat \<Rightarrow> int set" where
  "pairs_at cs k = {i. (int k, i) \<in> set cs}"

definition overlap :: "int list \<Rightarrow> int list \<Rightarrow> int \<Rightarrow> int set" where
  "overlap rlabels labels r = {labels ! p | p. p < length labels \<and> rlabels ! p = r}"

definition conflict_value :: "int set \<Rightarrow> int \<Rightarrow> bool" where
  "conflict_value N v =
     ((N = {} \<and> v = 0) \<or> (\<exists>x. N = {x} \<and> v = x)
      \<or> ((\<exists>x \<in> N. \<exists>y \<in> N. x \<noteq> y) \<and> v = oops_value))"

text \<open>
  What \<open>select_regions\<close> relies on from \<open>np.argsort\<close>: the result \<open>best\<close> lists every
  index of \<open>scores\<close> once, and the scores are ascending along it.
\<close>

definition sorts :: "'v::linorder list \<Rightarrow> nat list \<Rightarrow> bool" where
  "sorts scores best =
     (distinct best \<and> set best = {0..<length scores}
      \<and> sorted (map (\<lambda>i. scores ! i) best))"

subsection \<open>The library on one-dimensional arrays\<close>

text \<open>
  Concrete library routines, for running the module on explicit inputs. They follow
  the documented behaviour of \<open>scipy.ndimage\<close> on one-dimensional arrays; an array
  of another rank is answered with \<open>NotCovered\<close>. The uniform filter returns the
  means themselves, where the library returns the float32 values next to them. A filter of
  \<open>size\<close> pixels reads, for output position \<open>i\<close>, the input positions
  \<open>i - (size div 2 + origin), ...\<close> (\<open>size\<close> of them). The boundary mode
  \<open>reflect\<close> (the default) continues the array as \<open>d c b a | a b c d | d c b a\<close>, the
  mode \<open>constant\<close> with the value \<open>cval\<close>. The filters leave out an axis whose
  \<open>size\<close> is 1 or less: the result is then a copy of the input, whatever the origin.
  For a larger \<open>size\<close> an origin outside \<open>- (size div 2) .. (size - 1) div 2\<close> is
  refused with ValueError. \<open>uniform_filter\<close> first checks the shape of the output
  array it is given (RuntimeError).
\<close>

datatype lib_error =
  LibRuntimeError | LibValueError | LibTypeError | LibOverflowError | NotCovered

definition reflect :: "nat \<Rightarrow> int \<Rightarrow> nat" where
  "reflect n k =
     (let m = k mod (2 * int n) in nat (if m < int n then m else 2 * int n - 1 - m))"

definition window :: "int \<Rightarrow> int \<Rightarrow> nat \<Rightarrow> int list" where
  "window sz origin i = map (\<lambda>j. int i - (sz div 2 + origin) + int j) [0..<nat sz]"

definition filter_args_error :: "'a ndarray \<Rightarrow> int \<Rightarrow> int \<Rightarrow> lib_error option" where
  "filter_args_error img sz origin =
     (if length (shape img) \<noteq> 1 then Some NotCovered
      else if 1 < sz \<and> (origin < - (sz div 2) \<or> (sz - 1) div 2 < origin) then Some LibValueError
      else None)"

definition maximum_filter_1d :: "real ndarray \<Rightarrow> int \<Rightarrow> int \<Rightarrow> lib_error + real ndarray" where
  "maximum_filter_1d img sz origin =
     (case filter_args_error img sz origin of
        Some e \<Rightarrow> Inl e
      | None \<Rightarrow>
          if sz \<le> 1 then Inr img
          else
            (let xs = data img; n = length xs in
             Inr (img\<lparr>data :=
                    map (\<lambda>i. Max (set (map (\<lambda>k. xs ! reflect n k) (window sz origin i))))
                      [0..<n]\<rparr>)))"

definition minimum_filter_1d :: "real ndarray \<Rightarrow> int \<Rightarrow> int \<Rightarrow> lib_error + real ndarray" where
  "minimum_filter_1d img sz origin =
     (case filter_args_error img sz origin of
        Some e \<Rightarrow> Inl e
      | None \<Rightarrow>
          if sz \<le> 1 then Inr img
          else
            (let xs = data img; n = length xs in
             Inr (img\<lparr>data :=
                    map (\<lambda>i. Min (set (map (\<lambda>k. xs ! reflect n k) (window sz origin i))))
                      [0..<n]\<rparr>)))"

definition uniform_filter_1d ::
  "real ndarray \<Rightarrow> int \<Rightarrow> real ndarray \<Rightarrow> int \<Rightarrow> real \<Rightarrow> lib_error + (nat \<Rightarrow> real)" where
  "uniform_filter_1d img sz output origin cval =
     (if length (shape img) \<noteq> 1 then Inl NotCovered
      else if shape output \<noteq> shape img then Inl LibRuntimeError
      else
        (case filter_args_error img sz origin of
           Some e \<Rightarrow> Inl e
         | None \<Rightarrow>
             (let xs = data img; n = length xs in
              if sz \<le> 1 then Inr (\<lambda>i. xs ! i)
              else
                Inr (\<lambda>i. sum_list (map (\<lambda>k. if 0 \<le> k \<and> k < int n then xs ! nat k else cval)
                                     (window sz origin i)) / real_of_int sz))))"

subsection \<open>The library's filters on arrays of any rank\<close>

text \<open>
  What \<open>scipy.ndimage\<close> documents for \<open>maximum_filter\<close>, \<open>minimum_filter\<close> and
  \<open>uniform_filter\<close> on an array of any rank, for the sizes \<open>szs\<close> of the window on
  each axis (a \<open>size\<close> that is one integer stands for that size on every axis) and
  one \<open>origin\<close> for all axes. \<open>unravel shp i\<close> are the coordinates of the element \<open>i\<close>
  of the row-major order, \<open>ravel shp c\<close> is the element with the coordinates \<open>c\<close>.
  Along one axis the filter reads, for the coordinate \<open>c\<close>, the positions \<open>taps\<close>:
  the window, or \<open>c\<close> alone when the size of the axis is 1 or less (the axis is left
  out). The footprint of an element is the box of all positions whose coordinate
  is, on every axis, one of the taps of that axis; it has \<open>window_count\<close> positions.
  In the mode \<open>reflect\<close> a position outside the array stands for the element its
  coordinates are reflected to; in the mode \<open>constant\<close> it stands for the value
  \<open>cval\<close>. \<open>maximum_filter\<close> and \<open>minimum_filter\<close> return the maximum and the
  minimum over the footprint; \<open>uniform_filter\<close> returns the mean over it.
\<close>

fun unravel :: "nat list \<Rightarrow> nat \<Rightarrow> nat list" where
  "unravel [] i = []"
| "unravel (d # ds) i = (i div prod_list ds) # unravel ds (i mod prod_list ds)"

fun ravel :: "nat list \<Rightarrow> nat list \<Rightarrow> nat" where
  "ravel (d # ds) (c # cs) = c * prod_list ds + ravel ds cs"
| "ravel ds cs = 0"

definition taps :: "int \<Rightarrow> int \<Rightarrow> nat \<Rightarrow> int list" where
  "taps sz origin c = (if sz \<le> 1 then [int c] else window sz origin c)"

definition footprint :: "int list \<Rightarrow> int \<Rightarrow> nat list \<Rightarrow> int list list" where
  "footprint szs origin p = product_lists (map2 (\<lambda>sz c. taps sz origin c) szs p)"

definition window_count :: "int list \<Rightarrow> nat" where
  "window_count szs = prod_list (map (\<lambda>sz. nat (max 1 sz)) szs)"

definition in_bounds :: "nat list \<Rightarrow> int list \<Rightarrow> bool" where
  "in_bounds shp k = list_all2 (\<lambda>d x. 0 \<le> x \<and> x < int d) shp k"

definition reflected :: "'a ndarray \<Rightarrow> int list \<Rightarrow> 'a" where
  "reflected img k = data img ! ravel (shape img) (map2 reflect (shape img) k)"

definition padded :: "'a ndarray \<Rightarrow> 'a \<Rightarrow> int list \<Rightarrow> 'a" where
  "padded img cval k =
     (if in_bounds (shape img) k then data img ! ravel (shape img) (map nat k) else cval)"

definition window_max :: "real ndarray \<Rightarrow> int list \<Rightarrow> int \<Rightarrow> nat \<Rightarrow> real" where
  "window_max img szs origin i =
     Max (set (map (reflected img) (footprint szs origin (unravel (shape img) i))))"

definition window_min :: "real ndarray \<Rightarrow> int list \<Rightarrow> int \<Rightarrow> nat \<Rightarrow> real" where
  "window_min img szs origin i =
     Min (set (map (reflected img) (footprint szs origin (unravel (shape img) i))))"

definition window_mean :: "real ndarray \<Rightarrow> int list \<Rightarrow> int \<Rightarrow> real \<Rightarrow> nat \<Rightarrow> real" where
  "window_mean img szs origin cval i =
     (let fp = footprint szs origin (unravel (shape img) i)
      in sum_list (map (padded img cval) fp) / real (length fp))"

text \<open>
  The result of a call of the maximum or the minimum filter that returned what is
  documented: the input with every element replaced.
\<close>

definition max_filtered :: "real ndarray \<Rightarrow> int list \<Rightarrow> int \<Rightarrow> real ndarray" where
  "max_filtered img szs origin =
     img\<lparr>data := map (window_max img szs origin) [0..<length (data img)]\<rparr>"

definition min_filtered :: "real ndarray \<Rightarrow> int list \<Rightarrow> int \<Rightarrow> real ndarray" where
  "min_filtered img szs origin =
     img\<lparr>data := map (window_min img szs origin) [0..<length (data img)]\<rparr>"

text \<open>
  \<open>uniform_filter\<close> computes in floating point and stores float32 values. A call
  \<open>returns_means\<close> when it returns, and every value it writes is within half the
  weight of one position, \<open>1 / (2 * window_count)\<close>, of the mean over the footprint.
  It is \<open>exact_at v\<close> when it writes exactly \<open>v\<close> wherever that mean is exactly \<open>v\<close>.
\<close>

definition returns_means ::
  "'e + (nat \<Rightarrow> real) \<Rightarrow> real ndarray \<Rightarrow> int list \<Rightarrow> int \<Rightarrow> real \<Rightarrow> bool" where
  "returns_means r img szs origin cval =
     (case r of
        Inl e \<Rightarrow> False
      | Inr w \<Rightarrow>
          \<forall>i \<in> set [0..<length (data img)].
            \<bar>w i - window_mean img szs origin cval i\<bar> < 1 / (2 * real (window_count szs)))"

definition exact_at ::
  "real \<Rightarrow> 'e + (nat \<Rightarrow> real) \<Rightarrow> real ndarray \<Rightarrow> int list \<Rightarrow> int \<Rightarrow> real \<Rightarrow> bool" where
  "exact_at v r img szs origin cval =
     (case r of
        Inl e \<Rightarrow> False
      | Inr w \<Rightarrow>
          \<forall>i \<in> set [0..<length (data img)].
            window_mean img szs origin cval i = v \<longrightarrow> w i = v)"

subsection \<open>The library on one-dimensional arrays: labelling\<close>

text \<open>
  \<open>np.array(a, dtype=t)\<close> for an array \<open>a\<close> of Python integers (dtype object) or of
  machine integers: a name NumPy does not know is refused with TypeError; a Python
  integer outside the range of the integer dtype asked for is refused with
  OverflowError; an element of an integer array is cast, wrapping around.
\<close>

definition dtype_of_name :: "string \<Rightarrow> dtype option" where
  "dtype_of_name =
     map_of
       [(''bool'', Bool), (''int8'', Int8), (''uint8'', UInt8), (''int16'', Int16),
        (''uint16'', UInt16), (''int32'', Int32), (''uint32'', UInt32), (''int64'', Int64),
        (''uint64'', UInt64), (''float32'', Float32), (''float64'', Float64),
        (''object'', Object)]"

definition int_range :: "dtype \<Rightarrow> (int \<times> int) option" where
  "int_range d =
     (case d of
        Int8 \<Rightarrow> Some (- (2 ^ 7), 2 ^ 7 - 1) | UInt8 \<Rightarrow> Some (0, 2 ^ 8 - 1)
      | Int16 \<Rightarrow> Some (- (2 ^ 15), 2 ^ 15 - 1) | UInt16 \<Rightarrow> Some (0, 2 ^ 16 - 1)
      | Int32 \<Rightarrow> Some (- (2 ^ 31), 2 ^ 31 - 1) | UInt32 \<Rightarrow> Some (0, 2 ^ 32 - 1)
      | Int64 \<Rightarrow> Some (- (2 ^ 63), 2 ^ 63 - 1) | UInt64 \<Rightarrow> Some (0, 2 ^ 64 - 1)
      | _ \<Rightarrow> None)"

definition cast :: "dtype \<Rightarrow> int \<Rightarrow> int" where
  "cast d v =
     (case int_range d of
        Some (lo, hi) \<Rightarrow> (v - lo) mod (hi - lo + 1) + lo
      | None \<Rightarrow> if d = Bool then (if v = 0 then 0 else 1) else v)"

definition np_array_ints :: "string \<Rightarrow> int ndarray \<Rightarrow> lib_error + int ndarray" where
  "np_array_ints t a =
     (case dtype_of_name t of
        None \<Rightarrow> Inl LibTypeError
      | Some d \<Rightarrow>
          if dtype a = Object \<and> (\<exists>v \<in> set (data a). cast d v \<noteq> v \<and> d \<noteq> Bool)
          then Inl LibOverflowError
          else Inr (a\<lparr>dtype := d, data := map (cast d) (data a)\<rparr>))"

definition np_array_labels_1d :: "string \<Rightarrow> int list \<Rightarrow> lib_error + int list" where
  "np_array_labels_1d t a =
     (case dtype_of_name t of
        None \<Rightarrow> Inl LibTypeError
      | Some d \<Rightarrow> Inr (map (cast d) a))"

text \<open>
  \<open>scipy.ndimage.label\<close> on a one-dimensional array: the maximal runs of nonzero
  elements are numbered 1, 2, ... from the left, the zero elements are 0; the result
  is the int32 label array and the number of runs. An object array is refused.
\<close>

fun label_runs :: "int \<Rightarrow> bool \<Rightarrow> 'a::zero list \<Rightarrow> int list" where
  "label_runs n inside [] = []"
| "label_runs n inside (x # xs) =
     (if x = 0 then 0 # label_runs n False xs
      else if inside then n # label_runs n True xs
      else (n + 1) # label_runs (n + 1) True xs)"

definition label_1d :: "'a::zero ndarray \<Rightarrow> lib_error + int list \<times> int" where
  "label_1d a =
     (if dtype a = Object then Inl LibTypeError
      else if length (shape a) \<noteq> 1 then Inl NotCovered
      else (let ls = label_runs 0 False (data a) in Inr (ls, Max (set (0 # ls)))))"

text \<open>
  \<open>scipy.ndimage.find_objects\<close> on a one-dimensional label array: for each label
  \<open>1 .. max\<close> the slice \<open>(start, stop)\<close> that bounds its elements, or \<open>None\<close> for a label
  that does not occur. The routine takes the maximum of the array first, which raises
  ValueError for an array without elements.
\<close>

definition find_objects_1d :: "int list \<Rightarrow> lib_error + (nat \<times> nat) option list" where
  "find_objects_1d labels =
     (if labels = [] then Inl LibValueError
      else
        Inr (map (\<lambda>k. (let ps = filter (\<lambda>p. labels ! p = k) [0..<length labels]
                        in if ps = [] then None else Some (hd ps, Suc (last ps))))
               [1..Max (set labels)]))"

text \<open>
  \<open>np.argsort\<close> on a list of scores: indices that sort the scores in ascending order.
  NumPy's default sort leaves the order of equal scores open; this routine puts
  them in index order, and is used below on scores that are all different.
\<close>

definition np_argsort :: "'v::linorder list \<Rightarrow> nat list" where
  "np_argsort scores = map snd (sort_key fst (zip scores [0..<length scores]))"

subsection \<open>Explicit inputs\<close>

definition closing_input :: "real ndarray" where
  "closing_input = \<lparr>shape = [4], dtype = UInt8, data = [0, 1, 0, 0]\<rparr>"

definition float_input :: "real ndarray" where
  "float_input = \<lparr>shape = [5], dtype = Float64, data = [0, 3, 1 / 2, 0, - 2]\<rparr>"

definition gray_input :: "real ndarray" where
  "gray_input = \<lparr>shape = [4], dtype = Int32, data = [0, 2, 1, 0]\<rparr>"

text \<open>A one-pixel array of dtype object that holds the Python integer \<open>2 ** 63\<close>.\<close>

definition object_input :: "int ndarray" where
  "object_input = \<lparr>shape = [1], dtype = Object, data = [2 ^ 63]\<rparr>"

text \<open>The list of dtype names with \<open>"uint64"\<close> in the fourth place.\<close>

definition types_with_uint64 :: "string list" where
  "types_with_uint64 = [''int32'', ''uint32'', ''int64'', ''uint64'', ''int16'', ''uint16'']"

text \<open>A binary image with two components, and the length of a slice as the score.\<close>

definition components_input :: "int ndarray" where
  "components_input = \<lparr>shape = [6], dtype = UInt8, data = [0, 1, 1, 0, 1, 0]\<rparr>"

definition slice_length :: "(nat \<times> nat) option \<Rightarrow> int" where
  "slice_length s = (case s of None \<Rightarrow> 0 | Some (start, stop) \<Rightarrow> int stop - int start)"







text \<open>
  An image with 21475 components of two pixels each, one pixel apart; a label array
  that gives the two pixels of every component the labels 5 and 6; and the labelling
  of the image.
\<close>

definition many :: nat where
  "many = 21475"

definition many_components :: "int ndarray" where
  "many_components =
     \<lparr>shape = [3 * many], dtype = UInt8, data = concat (replicate many [1, 1, 0])\<rparr>"

definition many_labels :: "int list" where
  "many_labels = concat (replicate many [5, 6, 0])"

definition many_rlabels :: "int list" where
  "many_rlabels = concat (map (\<lambda>j. [int j, int j, 0]) [1..<Suc many])"


text \<open>A binary image for the erosions, and a binary image of two rows.\<close>

definition erosion_input :: "real ndarray" where
  "erosion_input = \<lparr>shape = [4], dtype = UInt8, data = [1, 0, 1, 1]\<rparr>"

definition grid_input :: "real ndarray" where
  "grid_input = \<lparr>shape = [2, 3], dtype = UInt8, data = [0, 0, 1, 0, 0, 0]\<rparr>"
section \<open>Properties\<close>

subsection \<open>Indices and the int32 range\<close>

lemma wrap32_id: "- (2 ^ 31) \<le> x \<Longrightarrow> x < 2 ^ 31 \<Longrightarrow> wrap32 x = x"
  by (simp add: wrap32_def)

lemma py_index_in_range: "0 \<le> i \<Longrightarrow> i < int n \<Longrightarrow> py_index n i = Some (nat i)"
  by (simp add: py_index_def)

lemma take_items_in_range:
  assumes "\<forall>i \<in> set idx. 0 \<le> i \<and> i < int (length xs)"
  shows "take_items xs idx = Inr (map (\<lambda>i. xs ! nat i) idx)"
  using assms by (auto simp: take_items_def py_index_in_range)

subsection \<open>The uniform-filter variants return 0/1 masks\<close>

lemma rb_dilation_mask:
  "rb_dilation uf img sz origin = Inr r \<Longrightarrow> binary_mask_of_shape (shape img) r"
  by (auto simp: rb_dilation_def Let_def mask_array_def fill_def np_zeros_def
        binary_mask_of_shape_def split: sum.splits)

lemma rb_erosion_mask:
  "rb_erosion uf img sz origin = Inr r \<Longrightarrow> binary_mask_of_shape (shape img) r"
  by (auto simp: rb_erosion_def Let_def mask_array_def fill_def np_zeros_def
        binary_mask_of_shape_def split: sum.splits)

lemma rb_opening_mask:
  assumes "rb_opening uf img sz origin = Inr r"
  shows "binary_mask_of_shape (shape img) r"
proof -
  from assms obtain m where e: "rb_erosion uf img sz origin = Inr m"
    and d: "rb_dilation uf m sz origin = Inr r"
    by (auto simp: rb_opening_def split: sum.splits)
  from rb_erosion_mask [OF e] have "shape m = shape img"
    by (simp add: binary_mask_of_shape_def)
  with rb_dilation_mask [OF d] show ?thesis by simp
qed

lemma rb_closing_mask:
  assumes "rb_closing uf img sz origin = Inr r"
  shows "binary_mask_of_shape (shape img) r"
proof -
  from assms obtain m where d: "rb_dilation uf img sz origin = Inr m"
    and e: "rb_erosion uf m sz origin = Inr r"
    by (auto simp: rb_closing_def split: sum.splits)
  from rb_dilation_mask [OF d] have "shape m = shape img"
    by (simp add: binary_mask_of_shape_def)
  with rb_erosion_mask [OF e] show ?thesis by simp
qed

text \<open>
  Claim C8. For every input array, binary or not, and whatever the library's uniform
  filter writes into the output array: when \<open>rb_dilation\<close>, \<open>rb_erosion\<close>,
  \<open>rb_opening\<close> or \<open>rb_closing\<close> returns, it returns an int32 array of the shape of
  the input whose entries are all 0 or 1.
\<close>

theorem rb_outputs_are_masks:
  "(\<forall>r. rb_dilation uf img sz origin = Inr r \<longrightarrow> binary_mask_of_shape (shape img) r)
   \<and> (\<forall>r. rb_erosion uf img sz origin = Inr r \<longrightarrow> binary_mask_of_shape (shape img) r)
   \<and> (\<forall>r. rb_opening uf img sz origin = Inr r \<longrightarrow> binary_mask_of_shape (shape img) r)
   \<and> (\<forall>r. rb_closing uf img sz origin = Inr r \<longrightarrow> binary_mask_of_shape (shape img) r)"
  by (intro conjI allI impI)
    (erule rb_dilation_mask rb_erosion_mask rb_opening_mask rb_closing_mask)+

theorem rb_outputs_are_masks_witness:
  "rb_dilation uniform_filter_1d float_input 3 0
     = Inr \<lparr>shape = [5], dtype = Int32, data = [1, 1, 1, 0, 0]\<rparr>
   \<and> binary_mask_of_shape [5] \<lparr>shape = [5], dtype = Int32, data = [1, 1, 1, 0, 0]\<rparr>
   \<and> rb_erosion uniform_filter_1d float_input 3 0
     = Inr \<lparr>shape = [5], dtype = Int32, data = [0, 0, 0, 0, 0]\<rparr>
   \<and> binary_mask_of_shape [5] \<lparr>shape = [5], dtype = Int32, data = [0, 0, 0, 0, 0]\<rparr>
   \<and> rb_opening uniform_filter_1d float_input 3 0
     = Inr \<lparr>shape = [5], dtype = Int32, data = [0, 0, 0, 0, 0]\<rparr>
   \<and> rb_closing uniform_filter_1d float_input 3 0
     = Inr \<lparr>shape = [5], dtype = Int32, data = [1, 1, 0, 0, 0]\<rparr>
   \<and> binary_mask_of_shape [5] \<lparr>shape = [5], dtype = Int32, data = [1, 1, 0, 0, 0]\<rparr>"
proof -
  have s: "shape float_input = [5]"
    by (simp add: float_input_def)
  have d: "rb_dilation uniform_filter_1d float_input 3 0
      = Inr \<lparr>shape = [5], dtype = Int32, data = [1, 1, 1, 0, 0]\<rparr>"
    by code_simp
  have e: "rb_erosion uniform_filter_1d float_input 3 0
      = Inr \<lparr>shape = [5], dtype = Int32, data = [0, 0, 0, 0, 0]\<rparr>"
    by code_simp
  have o: "rb_opening uniform_filter_1d float_input 3 0
      = Inr \<lparr>shape = [5], dtype = Int32, data = [0, 0, 0, 0, 0]\<rparr>"
    by code_simp
  have c: "rb_closing uniform_filter_1d float_input 3 0
      = Inr \<lparr>shape = [5], dtype = Int32, data = [1, 1, 0, 0, 0]\<rparr>"
    by code_simp
  show ?thesis
    using rb_outputs_are_masks [of uniform_filter_1d float_input 3 0] d e o c s
    by simp
qed

subsection \<open>Which variants check their input\<close>

lemma check_binary_assert:
  "check_binary img = Inl AssertionError \<longleftrightarrow> fails_binary_check img"
proof (cases "data img = []")
  case True
  then show ?thesis by (simp add: check_binary_def fails_binary_check_def)
next
  case False
  then have "(0 \<le> Min (set (data img)) \<and> Max (set (data img)) \<le> 1)
      \<longleftrightarrow> \<not> (\<exists>v \<in> set (data img). v < 0 \<or> 1 < v)"
    by (auto simp: not_less)
  with False show ?thesis
    by (auto simp: check_binary_def fails_binary_check_def)
qed

lemma r_opening_assert:
  "r_opening mx mn img sz origin = Inl AssertionError \<longleftrightarrow> fails_binary_check img"
proof (cases "check_binary img :: 'a py_error + unit")
  case (Inl e)
  then show ?thesis
    using check_binary_assert [of img, where ?'a = 'a] by (auto simp: r_opening_def)
next
  case (Inr u)
  then have "\<not> fails_binary_check img"
    using check_binary_assert [of img, where ?'a = 'a] by auto
  with Inr show ?thesis
    by (auto simp: r_opening_def r_erosion_def r_dilation_def raised_def split: sum.splits)
qed

lemma r_closing_assert:
  "r_closing mx mn img sz origin = Inl AssertionError \<longleftrightarrow> fails_binary_check img"
proof (cases "check_binary img :: 'a py_error + unit")
  case (Inl e)
  then show ?thesis
    using check_binary_assert [of img, where ?'a = 'a] by (auto simp: r_closing_def)
next
  case (Inr u)
  then have "\<not> fails_binary_check img"
    using check_binary_assert [of img, where ?'a = 'a] by auto
  with Inr show ?thesis
    by (auto simp: r_closing_def r_erosion_def r_dilation_def raised_def split: sum.splits)
qed

lemma rg_opening_no_check:
  "rg_opening mx mn img sz origin = Inl err \<Longrightarrow> \<exists>e. err = Raised e"
  by (auto simp: rg_opening_def r_erosion_def r_dilation_def raised_def split: sum.splits)

lemma rg_closing_no_check:
  "rg_closing mx mn img sz origin = Inl err \<Longrightarrow> \<exists>e. err = Raised e"
  by (auto simp: rg_closing_def r_erosion_def r_dilation_def raised_def split: sum.splits)

lemma rb_dilation_no_check:
  "rb_dilation uf img sz origin = Inl err \<Longrightarrow> \<exists>e. err = Raised e"
  by (auto simp: rb_dilation_def Let_def split: sum.splits)

lemma rb_erosion_no_check:
  "rb_erosion uf img sz origin = Inl err \<Longrightarrow> \<exists>e. err = Raised e"
  by (auto simp: rb_erosion_def Let_def split: sum.splits)

lemma rb_opening_no_check:
  "rb_opening uf img sz origin = Inl err \<Longrightarrow> \<exists>e. err = Raised e"
  by (auto simp: rb_opening_def split: sum.splits
        dest: rb_dilation_no_check rb_erosion_no_check)

lemma rb_closing_no_check:
  "rb_closing uf img sz origin = Inl err \<Longrightarrow> \<exists>e. err = Raised e"
  by (auto simp: rb_closing_def split: sum.splits
        dest: rb_dilation_no_check rb_erosion_no_check)

text \<open>
  Claim C9. \<open>r_opening\<close> and \<open>r_closing\<close> raise AssertionError exactly when the input
  fails the binary check. \<open>rg_opening\<close>, \<open>rg_closing\<close>, \<open>rb_opening\<close> and \<open>rb_closing\<close>
  validate nothing: whatever the input, the only exceptions that come out of them are
  the ones a library filter raises.
\<close>

theorem binary_check_only_in_r_family:
  "(r_opening mx mn img sz origin = Inl AssertionError \<longleftrightarrow> fails_binary_check img)
   \<and> (r_closing mx mn img sz origin = Inl AssertionError \<longleftrightarrow> fails_binary_check img)
   \<and> (\<forall>err. rg_opening mx mn img sz origin = Inl err \<longrightarrow> (\<exists>e. err = Raised e))
   \<and> (\<forall>err. rg_closing mx mn img sz origin = Inl err \<longrightarrow> (\<exists>e. err = Raised e))
   \<and> (\<forall>err. rb_opening uf img sz origin = Inl err \<longrightarrow> (\<exists>e. err = Raised e))
   \<and> (\<forall>err. rb_closing uf img sz origin = Inl err \<longrightarrow> (\<exists>e. err = Raised e))"
proof (intro conjI allI impI)
  show "r_opening mx mn img sz origin = Inl AssertionError \<longleftrightarrow> fails_binary_check img"
    by (rule r_opening_assert)
  show "r_closing mx mn img sz origin = Inl AssertionError \<longleftrightarrow> fails_binary_check img"
    by (rule r_closing_assert)
next
  fix err assume "rg_opening mx mn img sz origin = Inl err"
  then show "\<exists>e. err = Raised e" by (rule rg_opening_no_check)
next
  fix err assume "rg_closing mx mn img sz origin = Inl err"
  then show "\<exists>e. err = Raised e" by (rule rg_closing_no_check)
next
  fix err assume "rb_opening uf img sz origin = Inl err"
  then show "\<exists>e. err = Raised e" by (rule rb_opening_no_check)
next
  fix err assume "rb_closing uf img sz origin = Inl err"
  then show "\<exists>e. err = Raised e" by (rule rb_closing_no_check)
qed

theorem binary_check_only_in_r_family_witness:
  "r_opening maximum_filter_1d minimum_filter_1d gray_input 3 0 = Inl AssertionError
   \<and> r_closing maximum_filter_1d minimum_filter_1d gray_input 3 0 = Inl AssertionError
   \<and> fails_binary_check gray_input
   \<and> rg_opening maximum_filter_1d minimum_filter_1d gray_input 3 0
       = Inr \<lparr>shape = [4], dtype = Int32, data = [0, 0, 0, 0]\<rparr>
   \<and> rg_closing maximum_filter_1d minimum_filter_1d gray_input 3 0
       = Inr \<lparr>shape = [4], dtype = Int32, data = [2, 2, 1, 1]\<rparr>
   \<and> rb_opening uniform_filter_1d gray_input 3 0
       = Inr \<lparr>shape = [4], dtype = Int32, data = [1, 1, 1, 1]\<rparr>
   \<and> rb_closing uniform_filter_1d gray_input 3 0
       = Inr \<lparr>shape = [4], dtype = Int32, data = [1, 1, 1, 1]\<rparr>
   \<and> rg_opening maximum_filter_1d minimum_filter_1d gray_input 3 5
       = Inl (Raised LibValueError)
   \<and> rb_opening uniform_filter_1d gray_input 3 5 = Inl (Raised LibValueError)
   \<and> rb_closing uniform_filter_1d gray_input 3 5 = Inl (Raised LibValueError)"
proof -
  have o: "r_opening maximum_filter_1d minimum_filter_1d gray_input 3 0
      = (Inl AssertionError :: lib_error py_error + real ndarray)"
    by code_simp
  have c: "r_closing maximum_filter_1d minimum_filter_1d gray_input 3 0
      = (Inl AssertionError :: lib_error py_error + real ndarray)"
    by code_simp
  have go: "rg_opening maximum_filter_1d minimum_filter_1d gray_input 3 0
      = Inr \<lparr>shape = [4], dtype = Int32, data = [0, 0, 0, 0]\<rparr>"
    by code_simp
  have gc: "rg_closing maximum_filter_1d minimum_filter_1d gray_input 3 0
      = Inr \<lparr>shape = [4], dtype = Int32, data = [2, 2, 1, 1]\<rparr>"
    by code_simp
  have bo: "rb_opening uniform_filter_1d gray_input 3 0
      = Inr \<lparr>shape = [4], dtype = Int32, data = [1, 1, 1, 1]\<rparr>"
    by code_simp
  have bc: "rb_closing uniform_filter_1d gray_input 3 0
      = Inr \<lparr>shape = [4], dtype = Int32, data = [1, 1, 1, 1]\<rparr>"
    by code_simp
  have go5: "rg_opening maximum_filter_1d minimum_filter_1d gray_input 3 5
      = Inl (Raised LibValueError)"
    by code_simp
  have bo5: "rb_opening uniform_filter_1d gray_input 3 5 = Inl (Raised LibValueError)"
    by code_simp
  have bc5: "rb_closing uniform_filter_1d gray_input 3 5 = Inl (Raised LibValueError)"
    by code_simp
  show ?thesis
    using binary_check_only_in_r_family
      [of maximum_filter_1d minimum_filter_1d gray_input 3 0 uniform_filter_1d]
      binary_check_only_in_r_family
      [of maximum_filter_1d minimum_filter_1d gray_input 3 5 uniform_filter_1d]
      o c go gc bo bc go5 bo5 bc5
    by simp
qed

subsection \<open>Closing and the origin\<close>

lemma r_closing_any_origin:
  "r_closing mx mn img sz origin = r_closing mx mn img sz 0"
  by (simp add: r_closing_def)

lemma rg_closing_any_origin:
  "rg_closing mx mn img sz origin = rg_closing mx mn img sz 0"
  by (simp add: rg_closing_def)

text \<open>
  Claim C6, at the input \<open>[0, 1, 0, 0]\<close> with size 3 and origin 1. \<open>r_closing\<close> and
  \<open>rg_closing\<close> return \<open>[1, 1, 0, 0]\<close>, which is the closing with origin 0; dilation
  followed by erosion with the origin 1 passed to both stages gives \<open>[1, 1, 1, 1]\<close>.
\<close>

theorem closing_ignores_origin:
  "r_closing maximum_filter_1d minimum_filter_1d closing_input 3 1
     = Inr \<lparr>shape = [4], dtype = UInt8, data = [1, 1, 0, 0]\<rparr>
   \<and> rg_closing maximum_filter_1d minimum_filter_1d closing_input 3 1
     = Inr \<lparr>shape = [4], dtype = UInt8, data = [1, 1, 0, 0]\<rparr>
   \<and> (case r_dilation maximum_filter_1d closing_input 3 1 of
         Inl e \<Rightarrow> Inl e
       | Inr dilated \<Rightarrow> r_erosion minimum_filter_1d dilated 3 1)
     = Inr \<lparr>shape = [4], dtype = UInt8, data = [1, 1, 1, 1]\<rparr>"
  by code_simp

subsection \<open>The uniform filters against the minimum and maximum filters\<close>

text \<open>
  Claim C7, at the binary images \<open>[0, 1, 0, 0]\<close> and \<open>[1, 0, 1, 1]\<close> with size 3 and
  origin 1. The window of the first pixel reaches two positions to the left of the
  image. The maximum filter reflects them into the image and finds the 1 of the
  second pixel, so \<open>r_dilation\<close> marks the first pixel; the uniform filter reads them
  as the constant 0, the window sum is 0, and \<open>rb_dilation\<close> does not mark it. In the
  second image the minimum filter finds the 0 of the second pixel, while the uniform
  filter reads the constant 1 twice and the 1 of the first pixel: \<open>rb_erosion\<close> marks
  the first pixel and \<open>r_erosion\<close> does not.
\<close>

theorem uniform_and_extremum_filters_differ:
  "r_dilation maximum_filter_1d closing_input 3 1
     = Inr \<lparr>shape = [4], dtype = UInt8, data = [1, 1, 1, 1]\<rparr>
   \<and> rb_dilation uniform_filter_1d closing_input 3 1
     = Inr \<lparr>shape = [4], dtype = Int32, data = [0, 1, 1, 1]\<rparr>
   \<and> r_erosion minimum_filter_1d erosion_input 3 1
     = Inr \<lparr>shape = [4], dtype = UInt8, data = [0, 0, 0, 0]\<rparr>
   \<and> rb_erosion uniform_filter_1d erosion_input 3 1
     = Inr \<lparr>shape = [4], dtype = Int32, data = [1, 0, 0, 0]\<rparr>"
  by code_simp


text \<open>
  With origin 0 a position of the window that the maximum or minimum filter reflects
  into the array is reflected onto a position of the same window.
\<close>

lemma window_mem:
  "k \<in> set (window sz origin c)
     \<longleftrightarrow> int c - (sz div 2 + origin) \<le> k \<and> k < int c - (sz div 2 + origin) + sz"
proof
  assume "k \<in> set (window sz origin c)"
  then obtain j where "j < nat sz" "k = int c - (sz div 2 + origin) + int j"
    by (auto simp: window_def)
  then show "int c - (sz div 2 + origin) \<le> k \<and> k < int c - (sz div 2 + origin) + sz"
    by auto
next
  assume b: "int c - (sz div 2 + origin) \<le> k \<and> k < int c - (sz div 2 + origin) + sz"
  define j where "j = nat (k - (int c - (sz div 2 + origin)))"
  from b have "j < nat sz" "k = int c - (sz div 2 + origin) + int j"
    by (auto simp: j_def)
  then show "k \<in> set (window sz origin c)"
    by (auto simp: window_def)
qed

lemma reflect_less: "0 < d \<Longrightarrow> reflect d k < d"
proof -
  assume d: "0 < d"
  then have "0 \<le> k mod (2 * int d)" "k mod (2 * int d) < 2 * int d"
    by simp_all
  then show ?thesis
    by (auto simp: reflect_def Let_def)
qed

lemma reflect_id: "0 \<le> k \<Longrightarrow> k < int d \<Longrightarrow> reflect d k = nat k"
  by (simp add: reflect_def Let_def)

lemma reflect_left:
  assumes "- int d \<le> k" "k < 0"
  shows "int (reflect d k) = - 1 - k"
proof -
  have "k mod (2 * int d) = (k + 2 * int d) mod (2 * int d)"
    by simp
  also have "\<dots> = k + 2 * int d"
    using assms by (intro mod_pos_pos_trivial) simp_all
  finally show ?thesis
    using assms by (simp add: reflect_def Let_def)
qed

lemma reflect_right:
  assumes "int d \<le> k" "k < 2 * int d"
  shows "int (reflect d k) = 2 * int d - 1 - k"
proof -
  have "k mod (2 * int d) = k"
    using assms by (intro mod_pos_pos_trivial) simp_all
  then show ?thesis
    using assms by (simp add: reflect_def Let_def)
qed

lemma reflect_in_taps:
  assumes c: "c < d" and k: "k \<in> set (taps sz 0 c)"
  shows "int (reflect d k) \<in> set (taps sz 0 c)"
proof (cases "sz \<le> 1")
  case True
  with k have "k = int c" by (simp add: taps_def)
  with c have "reflect d k = c" by (simp add: reflect_id)
  with True show ?thesis by (simp add: taps_def)
next
  case False
  define s where "s = sz div 2"
  have s: "2 * s \<le> sz" "sz \<le> 2 * s + 1"
    by (simp_all add: s_def)
  from k False have kb: "int c - s \<le> k" "k < int c - s + sz"
    by (simp_all add: taps_def window_mem s_def)
  from c have r: "0 \<le> int (reflect d k)" "int (reflect d k) < int d"
    using reflect_less [of d k] by simp_all
  have "int c - s \<le> int (reflect d k) \<and> int (reflect d k) < int c - s + sz"
  proof -
    consider "0 \<le> k \<and> k < int d" | "- int d \<le> k \<and> k < 0" | "k < - int d"
      | "int d \<le> k \<and> k < 2 * int d" | "2 * int d \<le> k"
      by linarith
    then show ?thesis
    proof cases
      case 1
      then have "int (reflect d k) = k" by (simp add: reflect_id)
      with kb show ?thesis by simp
    next
      case 2
      then have "int (reflect d k) = - 1 - k" by (simp add: reflect_left)
      with kb s 2 show ?thesis by linarith
    next
      case 3
      with kb s r c show ?thesis by linarith
    next
      case 4
      then have "int (reflect d k) = 2 * int d - 1 - k" by (simp add: reflect_right)
      with kb s 4 c show ?thesis by linarith
    next
      case 5
      with kb s r c show ?thesis by linarith
    qed
  qed
  with False show ?thesis
    by (simp add: taps_def window_mem s_def)
qed

lemma footprint_mem:
  assumes "length szs = length p"
  shows "k \<in> set (footprint szs origin p)
     \<longleftrightarrow> length k = length p
         \<and> (\<forall>a < length p. k ! a \<in> set (taps (szs ! a) origin (p ! a)))"
  using assms by (auto simp: footprint_def product_lists_set list_all2_conv_all_nth)

lemma length_taps: "length (taps sz origin c) = nat (max 1 sz)"
  by (simp add: taps_def window_def max_def)

lemma length_footprint:
  assumes "length szs = length p"
  shows "length (footprint szs origin p) = window_count szs"
proof -
  have "length (footprint szs origin p)
      = foldr (*) (map length (map2 (\<lambda>sz c. taps sz origin c) szs p)) 1"
    by (simp only: footprint_def length_product_lists)
  also from assms have "\<dots> = window_count szs"
    by (induction szs p rule: list_induct2) (simp_all add: length_taps window_count_def)
  finally show ?thesis .
qed

lemma length_unravel: "length (unravel shp i) = length shp"
  by (induction shp arbitrary: i) simp_all

lemma unravel_less:
  "i < prod_list shp \<Longrightarrow> a < length shp \<Longrightarrow> unravel shp i ! a < shp ! a"
proof (induction shp arbitrary: i a)
  case Nil
  then show ?case by simp
next
  case (Cons d ds)
  from Cons.prems(1) have i: "i < d * prod_list ds" by simp
  then have p: "0 < prod_list ds" by (cases "prod_list ds") auto
  show ?case
  proof (cases a)
    case 0
    from i have "i div prod_list ds < d"
      by (simp add: less_mult_imp_div_less)
    with 0 show ?thesis by simp
  next
    case (Suc a')
    from p have "i mod prod_list ds < prod_list ds" by simp
    from Cons.IH [OF this, of a'] Cons.prems(2) Suc show ?thesis by simp
  qed
qed

lemma ravel_less:
  "length cs = length shp \<Longrightarrow> \<forall>a < length shp. cs ! a < shp ! a
     \<Longrightarrow> ravel shp cs < prod_list shp"
proof (induction shp arbitrary: cs)
  case Nil
  then show ?case by simp
next
  case (Cons d ds)
  from Cons.prems(1) obtain c cs' where cs: "cs = c # cs'" "length cs' = length ds"
    by (cases cs) auto
  from Cons.prems(2) cs have c: "c < d" and r: "\<forall>a < length ds. cs' ! a < ds ! a"
    by auto
  from Cons.IH [OF cs(2) r] have "ravel ds cs' < prod_list ds" .
  then have "c * prod_list ds + ravel ds cs' < Suc c * prod_list ds" by simp
  also have "\<dots> \<le> d * prod_list ds"
    using c by (intro mult_le_mono1) simp
  finally show ?case by (simp add: cs)
qed

lemma reflect_in_footprint:
  assumes p: "length p = length shp" "\<forall>a < length shp. p ! a < shp ! a"
    and s: "length szs = length shp"
    and k: "k \<in> set (footprint szs 0 p)"
  shows "map int (map2 reflect shp k) \<in> set (footprint szs 0 p)"
    and "in_bounds shp (map int (map2 reflect shp k))"
    and "ravel shp (map2 reflect shp k) < prod_list shp"
proof -
  from s p(1) have sp: "length szs = length p" by simp
  from k have lk: "length k = length shp"
    and t: "\<And>a. a < length shp \<Longrightarrow> k ! a \<in> set (taps (szs ! a) 0 (p ! a))"
    by (simp_all add: footprint_mem [OF sp] p(1))
  have n: "map2 reflect shp k ! a = reflect (shp ! a) (k ! a)" if "a < length shp" for a
    using that lk by simp
  have pos: "0 < shp ! a" if "a < length shp" for a
    using p(2) that by (metis less_nat_zero_code neq0_conv)
  show "map int (map2 reflect shp k) \<in> set (footprint szs 0 p)"
    unfolding footprint_mem [OF sp]
    using p lk t by (auto simp: n intro!: reflect_in_taps)
  show "in_bounds shp (map int (map2 reflect shp k))"
    unfolding in_bounds_def list_all2_conv_all_nth
    using lk pos by (auto simp: n reflect_less)
  show "ravel shp (map2 reflect shp k) < prod_list shp"
    using lk pos by (intro ravel_less) (auto simp: n reflect_less)
qed

lemma reflect_in_bounds:
  assumes "in_bounds shp k"
  shows "map2 reflect shp k = map nat k"
proof (rule nth_equalityI)
  from assms have l: "length shp = length k"
    and b: "\<And>a. a < length shp \<Longrightarrow> 0 \<le> k ! a \<and> k ! a < int (shp ! a)"
    by (simp_all add: in_bounds_def list_all2_conv_all_nth)
  show "length (map2 reflect shp k) = length (map nat k)"
    using l by simp
  fix a assume "a < length (map2 reflect shp k)"
  with l have a: "a < length shp" by simp
  with l b [OF a] show "map2 reflect shp k ! a = map nat k ! a"
    by (simp add: reflect_id)
qed

lemma sum_list_ge_one:
  fixes xs :: "real list"
  assumes "\<forall>x \<in> set xs. 0 \<le> x" "1 \<in> set xs"
  shows "1 \<le> sum_list xs"
  using assms
proof (induction xs)
  case Nil
  then show ?case by simp
next
  case (Cons x xs)
  then have nn: "0 \<le> sum_list xs" by (simp add: sum_list_nonneg)
  show ?case
  proof (cases "x = 1")
    case True
    with nn show ?thesis by simp
  next
    case False
    with Cons have "1 \<le> sum_list xs" by simp
    moreover from Cons.prems have "0 \<le> x" by simp
    ultimately show ?thesis by simp
  qed
qed

lemma sum_list_le_length:
  fixes xs :: "real list"
  assumes "\<forall>x \<in> set xs. x \<le> 1"
  shows "sum_list xs \<le> real (length xs)"
  using assms by (induction xs) auto

lemma sum_list_le_pred:
  fixes xs :: "real list"
  assumes "\<forall>x \<in> set xs. x \<le> 1" "0 \<in> set xs"
  shows "sum_list xs \<le> real (length xs) - 1"
  using assms
proof (induction xs)
  case Nil
  then show ?case by simp
next
  case (Cons x xs)
  from Cons.prems have le: "sum_list xs \<le> real (length xs)"
    by (intro sum_list_le_length) simp
  show ?case
  proof (cases "x = 0")
    case True
    with le show ?thesis by simp
  next
    case False
    with Cons have "sum_list xs \<le> real (length xs) - 1" by simp
    moreover from Cons.prems have "x \<le> 1" by simp
    ultimately show ?thesis by simp
  qed
qed

lemma sum_list_all:
  fixes xs :: "real list"
  assumes "\<forall>x \<in> set xs. x = v"
  shows "sum_list xs = real (length xs) * v"
  using assms by (induction xs) (auto simp: algebra_simps)

lemma footprint_count:
  "length szs = length shp \<Longrightarrow> length (footprint szs origin (unravel shp i)) = window_count szs"
  by (simp add: length_footprint length_unravel)

lemma window_count_pos: "0 < window_count szs"
  by (induction szs) (simp_all add: window_count_def max_def)

lemma footprint_values:
  assumes bin: "\<forall>x \<in> set (data img). x = 0 \<or> x = 1"
    and len: "length (data img) = prod_list (shape img)"
    and rank: "length szs = length (shape img)"
    and i: "i < length (data img)"
    and k: "k \<in> set (footprint szs 0 (unravel (shape img) i))"
  shows "reflected img k = 0 \<or> reflected img k = (1::real)"
    and "\<exists>k' \<in> set (footprint szs 0 (unravel (shape img) i)).
           padded img cval k' = reflected img k"
    and "in_bounds (shape img) k \<Longrightarrow> padded img cval k = reflected img k"
    and "\<not> in_bounds (shape img) k \<Longrightarrow> padded img cval k = cval"
proof -
  define shp where "shp = shape img"
  define p where "p = unravel shp i"
  have p: "length p = length shp" "\<forall>a < length shp. p ! a < shp ! a"
    using i len by (simp_all add: p_def shp_def length_unravel unravel_less)
  from k have k': "k \<in> set (footprint szs 0 p)"
    by (simp add: p_def shp_def)
  from rank have s: "length szs = length shp"
    by (simp add: shp_def)
  define r where "r = map2 reflect shp k"
  note f = reflect_in_footprint [OF p s k', folded r_def]
  from f(3) len have "ravel shp r < length (data img)"
    by (simp add: shp_def)
  then have "data img ! ravel shp r \<in> set (data img)"
    by (rule nth_mem)
  with bin show "reflected img k = 0 \<or> reflected img k = 1"
    by (auto simp: reflected_def shp_def r_def)
  have e: "map nat (map int r) = r"
    by (induction r) simp_all
  from f(2) have "padded img cval (map int r) = data img ! ravel (shape img) (map nat (map int r))"
    by (simp only: padded_def shp_def if_True)
  also have "\<dots> = data img ! ravel (shape img) r"
    by (simp only: e)
  also have "\<dots> = reflected img k"
    by (simp only: reflected_def r_def shp_def)
  finally have "padded img cval (map int r) = reflected img k" .
  with f(1) show "\<exists>k' \<in> set (footprint szs 0 (unravel (shape img) i)).
      padded img cval k' = reflected img k"
    unfolding p_def shp_def by blast
  show "padded img cval k = reflected img k" if "in_bounds (shape img) k"
    using that reflect_in_bounds [OF that] by (simp add: padded_def reflected_def)
  show "padded img cval k = cval" if "\<not> in_bounds (shape img) k"
    using that by (simp add: padded_def)
qed

lemma dilation_pixel:
  assumes bin: "\<forall>x \<in> set (data img). x = 0 \<or> x = 1"
    and len: "length (data img) = prod_list (shape img)"
    and rank: "length szs = length (shape img)"
    and i: "i < length (data img)"
  shows "(window_max img szs 0 i = 1
          \<and> 1 / real (window_count szs) \<le> window_mean img szs 0 0 i)
       \<or> (window_max img szs 0 i = 0 \<and> window_mean img szs 0 0 i = 0)"
proof -
  define fp where "fp = footprint szs 0 (unravel (shape img) i)"
  define n where "n = window_count szs"
  have n: "length fp = n" "0 < n"
    by (simp_all add: fp_def n_def footprint_count [OF rank] window_count_pos)
  then have ne: "fp \<noteq> []" by auto
  note v = footprint_values [OF bin len rank i, folded fp_def]
  have mean: "window_mean img szs 0 0 i = sum_list (map (padded img 0) fp) / real n"
    by (simp add: window_mean_def Let_def fp_def [symmetric] n)
  have mx: "window_max img szs 0 i = Max (set (map (reflected img) fp))"
    by (simp add: window_max_def fp_def)
  have pv: "padded img 0 k = 0 \<or> padded img 0 k = 1" if "k \<in> set fp" for k
  proof (cases "in_bounds (shape img) k")
    case True
    from v(3) [OF that True, of 0] v(1) [OF that] show ?thesis by simp
  next
    case False
    from v(4) [OF that False, of 0] show ?thesis by simp
  qed
  show ?thesis
  proof (cases "\<exists>k \<in> set fp. reflected img k = 1")
    case True
    then obtain k where k: "k \<in> set fp" "reflected img k = 1" by blast
    have mxv: "Max (set (map (reflected img) fp)) = 1"
    proof (rule Max_eqI)
      show "finite (set (map (reflected img) fp))" by simp
      show "y \<le> 1" if "y \<in> set (map (reflected img) fp)" for y
      proof -
        from that obtain x where "x \<in> set fp" "y = reflected img x" by auto
        with v(1) [of x] show ?thesis by auto
      qed
      show "1 \<in> set (map (reflected img) fp)"
        using k by force
    qed
    from v(2) [OF k(1), of 0] k(2) obtain k' where "k' \<in> set fp" "padded img 0 k' = 1"
      by auto
    then have one: "1 \<in> set (map (padded img 0) fp)" by force
    have nn: "\<forall>x \<in> set (map (padded img 0) fp). 0 \<le> x"
    proof
      fix x assume "x \<in> set (map (padded img 0) fp)"
      then obtain k where "k \<in> set fp" "x = padded img 0 k" by auto
      with pv [of k] show "0 \<le> x" by auto
    qed
    from nn one have "1 \<le> sum_list (map (padded img 0) fp)"
      by (rule sum_list_ge_one)
    then have "1 / real n \<le> sum_list (map (padded img 0) fp) / real n"
      using n(2) by (simp add: divide_right_mono)
    with mxv show ?thesis
      by (simp add: mx mean n_def)
  next
    case False
    with v(1) have z: "reflected img k = 0" if "k \<in> set fp" for k
      using that by blast
    from ne z have "set (map (reflected img) fp) = {0}"
      by (cases fp) auto
    then have "Max (set (map (reflected img) fp)) = 0"
      by simp
    moreover have "padded img 0 k = 0" if "k \<in> set fp" for k
    proof (cases "in_bounds (shape img) k")
      case True
      from v(3) [OF that True, of 0] z [OF that] show ?thesis by simp
    next
      case False
      from v(4) [OF that False, of 0] show ?thesis by simp
    qed
    then have "sum_list (map (padded img 0) fp) = real (length (map (padded img 0) fp)) * 0"
      by (intro sum_list_all) auto
    ultimately show ?thesis
      by (simp add: mx mean)
  qed
qed

lemma erosion_pixel:
  assumes bin: "\<forall>x \<in> set (data img). x = 0 \<or> x = 1"
    and len: "length (data img) = prod_list (shape img)"
    and rank: "length szs = length (shape img)"
    and i: "i < length (data img)"
  shows "(window_min img szs 0 i = 1 \<and> window_mean img szs 0 1 i = 1)
       \<or> (window_min img szs 0 i = 0
          \<and> window_mean img szs 0 1 i \<le> 1 - 1 / real (window_count szs))"
proof -
  define fp where "fp = footprint szs 0 (unravel (shape img) i)"
  define n where "n = window_count szs"
  have n: "length fp = n" "0 < n"
    by (simp_all add: fp_def n_def footprint_count [OF rank] window_count_pos)
  then have ne: "fp \<noteq> []" by auto
  note v = footprint_values [OF bin len rank i, folded fp_def]
  have mean: "window_mean img szs 0 1 i = sum_list (map (padded img 1) fp) / real n"
    by (simp add: window_mean_def Let_def fp_def [symmetric] n)
  have mn: "window_min img szs 0 i = Min (set (map (reflected img) fp))"
    by (simp add: window_min_def fp_def)
  have pv: "padded img 1 k = 0 \<or> padded img 1 k = 1" if "k \<in> set fp" for k
  proof (cases "in_bounds (shape img) k")
    case True
    from v(3) [OF that True, of 1] v(1) [OF that] show ?thesis by simp
  next
    case False
    from v(4) [OF that False, of 1] show ?thesis by simp
  qed
  show ?thesis
  proof (cases "\<exists>k \<in> set fp. reflected img k = 0")
    case True
    then obtain k where k: "k \<in> set fp" "reflected img k = 0" by blast
    have mnv: "Min (set (map (reflected img) fp)) = 0"
    proof (rule Min_eqI)
      show "finite (set (map (reflected img) fp))" by simp
      show "0 \<le> y" if "y \<in> set (map (reflected img) fp)" for y
      proof -
        from that obtain x where "x \<in> set fp" "y = reflected img x" by auto
        with v(1) [of x] show ?thesis by auto
      qed
      show "0 \<in> set (map (reflected img) fp)"
        using k by force
    qed
    from v(2) [OF k(1), of 1] k(2) obtain k' where "k' \<in> set fp" "padded img 1 k' = 0"
      by auto
    then have zero: "0 \<in> set (map (padded img 1) fp)" by force
    have le: "\<forall>x \<in> set (map (padded img 1) fp). x \<le> 1"
    proof
      fix x assume "x \<in> set (map (padded img 1) fp)"
      then obtain k where "k \<in> set fp" "x = padded img 1 k" by auto
      with pv [of k] show "x \<le> 1" by auto
    qed
    from le zero have "sum_list (map (padded img 1) fp) \<le> real (length (map (padded img 1) fp)) - 1"
      by (rule sum_list_le_pred)
    then have "sum_list (map (padded img 1) fp) / real n \<le> (real n - 1) / real n"
      using n by (simp add: divide_right_mono)
    also have "\<dots> = 1 - 1 / real n"
      using n(2) by (simp add: diff_divide_distrib)
    finally have "window_mean img szs 0 1 i \<le> 1 - 1 / real n"
      by (simp add: mean)
    with mnv show ?thesis
      by (simp add: mn n_def)
  next
    case False
    with v(1) have o: "reflected img k = 1" if "k \<in> set fp" for k
      using that by blast
    from ne o have "set (map (reflected img) fp) = {1}"
      by (cases fp) auto
    then have "Min (set (map (reflected img) fp)) = 1"
      by simp
    moreover have "padded img 1 k = 1" if "k \<in> set fp" for k
    proof (cases "in_bounds (shape img) k")
      case True
      from v(3) [OF that True, of 1] o [OF that] show ?thesis by simp
    next
      case False
      from v(4) [OF that False, of 1] show ?thesis by simp
    qed
    then have "sum_list (map (padded img 1) fp) = real (length (map (padded img 1) fp)) * 1"
      by (intro sum_list_all) auto
    then have "sum_list (map (padded img 1) fp) / real n = 1"
      using n by simp
    ultimately show ?thesis
      by (simp add: mn mean)
  qed
qed

lemma rb_dilation_data:
  assumes "uniform_filter img sz (np_zeros (shape img) Float32) origin 0 = Inr w"
    and "length (data img) = prod_list (shape img)"
  shows "\<exists>b. rb_dilation uniform_filter img sz origin = Inr b
      \<and> length (data b) = length (data img)
      \<and> (\<forall>i < length (data img). data b ! i = (if 0 < w i then 1 else 0))"
  using assms by (simp add: rb_dilation_def Let_def mask_array_def fill_def np_zeros_def)

lemma rb_erosion_data:
  assumes "uniform_filter img sz (np_zeros (shape img) Float32) origin 1 = Inr w"
    and "length (data img) = prod_list (shape img)"
  shows "\<exists>d. rb_erosion uniform_filter img sz origin = Inr d
      \<and> length (data d) = length (data img)
      \<and> (\<forall>i < length (data img). data d ! i = (if w i = 1 then 1 else 0))"
  using assms by (simp add: rb_erosion_def Let_def mask_array_def fill_def np_zeros_def)


text \<open>
  The documented results on an array of two rows, and the one-dimensional routines
  against the documented results.
\<close>

lemma filters_on_two_rows:
  "map (window_max grid_input [3, 3] 0) [0..<6] = [0, 1, 1, 0, 1, 1]
   \<and> map (window_min grid_input [3, 3] 0) [0..<6] = [0, 0, 0, 0, 0, 0]
   \<and> map (window_mean grid_input [3, 3] 0 0) [0..<6] = [0, 1 / 9, 1 / 9, 0, 1 / 9, 1 / 9]
   \<and> map (window_mean grid_input [3, 3] 0 1) [0..<6] = [5 / 9, 4 / 9, 2 / 3, 5 / 9, 4 / 9, 2 / 3]
   \<and> map (window_max grid_input [3, 3] 1) [0..<6] = [0, 0, 1, 0, 0, 1]
   \<and> map (window_mean grid_input [3, 3] 1 0) [0..<6] = [0, 0, 1 / 9, 0, 0, 1 / 9]
   \<and> map (window_max grid_input [1, 3] 0) [0..<6] = [0, 1, 1, 0, 0, 0]
   \<and> map (window_mean grid_input [2, 1] 0 1) [0..<6] = [1 / 2, 1 / 2, 1, 0, 0, 1 / 2]"
  by code_simp

lemma footprint_1d: "footprint [sz] origin [c] = map (\<lambda>k. [k]) (taps sz origin c)"
  by (simp add: footprint_def)

lemma reflected_1d:
  "shape img = [n] \<Longrightarrow> reflected img [k] = data img ! reflect n k"
  by (simp add: reflected_def)

lemma padded_1d:
  "shape img = [n] \<Longrightarrow>
     padded img cval [k] = (if 0 \<le> k \<and> k < int n then data img ! nat k else cval)"
  by (simp add: padded_def in_bounds_def)

lemma maximum_filter_1d_documented:
  assumes shp: "shape img = [length (data img)]"
    and ok: "filter_args_error img sz origin = None"
  shows "maximum_filter_1d img sz origin = Inr (max_filtered img [sz] origin)"
proof (cases "sz \<le> 1")
  case True
  have "map (window_max img [sz] origin) [0..<length (data img)] = data img"
  proof (rule nth_equalityI)
    show "length (map (window_max img [sz] origin) [0..<length (data img)]) = length (data img)"
      by simp
    fix i assume "i < length (map (window_max img [sz] origin) [0..<length (data img)])"
    then have i: "i < length (data img)" by simp
    then show "map (window_max img [sz] origin) [0..<length (data img)] ! i = data img ! i"
      using True shp
      by (simp add: window_max_def footprint_1d taps_def reflected_1d [OF shp] reflect_id)
  qed
  with True ok show ?thesis
    by (simp add: maximum_filter_1d_def max_filtered_def)
next
  case False
  have "window_max img [sz] origin i
      = Max (set (map (\<lambda>k. data img ! reflect (length (data img)) k) (window sz origin i)))" for i
    using False shp
    by (simp add: window_max_def footprint_1d taps_def reflected_1d [OF shp] comp_def)
  with False ok show ?thesis
    by (simp add: maximum_filter_1d_def max_filtered_def Let_def)
qed

lemma minimum_filter_1d_documented:
  assumes shp: "shape img = [length (data img)]"
    and ok: "filter_args_error img sz origin = None"
  shows "minimum_filter_1d img sz origin = Inr (min_filtered img [sz] origin)"
proof (cases "sz \<le> 1")
  case True
  have "map (window_min img [sz] origin) [0..<length (data img)] = data img"
  proof (rule nth_equalityI)
    show "length (map (window_min img [sz] origin) [0..<length (data img)]) = length (data img)"
      by simp
    fix i assume "i < length (map (window_min img [sz] origin) [0..<length (data img)])"
    then have i: "i < length (data img)" by simp
    then show "map (window_min img [sz] origin) [0..<length (data img)] ! i = data img ! i"
      using True shp
      by (simp add: window_min_def footprint_1d taps_def reflected_1d [OF shp] reflect_id)
  qed
  with True ok show ?thesis
    by (simp add: minimum_filter_1d_def min_filtered_def)
next
  case False
  have "window_min img [sz] origin i
      = Min (set (map (\<lambda>k. data img ! reflect (length (data img)) k) (window sz origin i)))" for i
    using False shp
    by (simp add: window_min_def footprint_1d taps_def reflected_1d [OF shp] comp_def)
  with False ok show ?thesis
    by (simp add: minimum_filter_1d_def min_filtered_def Let_def)
qed

lemma uniform_filter_1d_documented:
  assumes shp: "shape img = [length (data img)]"
    and out: "shape output = shape img"
    and ok: "filter_args_error img sz origin = None"
    and i: "i < length (data img)"
  shows "\<exists>w. uniform_filter_1d img sz output origin cval = Inr w
      \<and> w i = window_mean img [sz] origin cval i"
proof (cases "sz \<le> 1")
  case True
  have "window_mean img [sz] origin cval i = data img ! i"
    using True shp i
    by (simp add: window_mean_def footprint_1d taps_def padded_1d [OF shp])
  with True ok out shp show ?thesis
    by (simp add: uniform_filter_1d_def Let_def)
next
  case False
  then have l: "real (length (window sz origin i)) = real_of_int sz"
    by (simp add: window_def)
  have "window_mean img [sz] origin cval i
      = sum_list (map (\<lambda>k. if 0 \<le> k \<and> k < int (length (data img)) then data img ! nat k else cval)
          (window sz origin i)) / real_of_int sz"
    using False shp
    by (simp add: window_mean_def footprint_1d taps_def padded_1d [OF shp] comp_def l)
  with False ok out shp show ?thesis
    by (simp add: uniform_filter_1d_def Let_def)
qed


text \<open>
  Claim C7, for origin 0. Take a binary image of any rank, a size \<open>sz\<close> that gives
  the axes the window sizes \<open>szs\<close>, the origin 0, and library filters that return
  what is documented: the maximum and the minimum over the reflected footprint, and
  values within \<open>1 / (2 * window_count)\<close> of the mean over the constant-padded
  footprint. Then the four functions return arrays of the size of the image; every
  pixel \<open>r_dilation\<close> marks is marked by \<open>rb_dilation\<close>, and every pixel
  \<open>rb_erosion\<close> marks is marked by \<open>r_erosion\<close>. If moreover the uniform filter
  writes exactly 0 where the mean is 0 (padding 0), the masks of \<open>rb_dilation\<close> and
  \<open>r_dilation\<close> are equal; if it writes exactly 1 where the mean is 1 (padding 1), the
  masks of \<open>rb_erosion\<close> and \<open>r_erosion\<close> are equal.
\<close>

theorem uniform_filters_agree_at_origin_zero:
  fixes img :: "real ndarray" and szs :: "int list"
  assumes bin: "\<forall>x \<in> set (data img). x = 0 \<or> x = 1"
    and len: "length (data img) = prod_list (shape img)"
    and rank: "length szs = length (shape img)"
    and mx: "maximum_filter img sz 0 = Inr (max_filtered img szs 0)"
    and mn: "minimum_filter img sz 0 = Inr (min_filtered img szs 0)"
    and u0: "returns_means (uniform_filter img sz (np_zeros (shape img) Float32) 0 0) img szs 0 0"
    and u1: "returns_means (uniform_filter img sz (np_zeros (shape img) Float32) 0 1) img szs 0 1"
  shows "\<exists>a b c d.
      r_dilation maximum_filter img sz 0 = Inr a
      \<and> rb_dilation uniform_filter img sz 0 = Inr b
      \<and> r_erosion minimum_filter img sz 0 = Inr c
      \<and> rb_erosion uniform_filter img sz 0 = Inr d
      \<and> length (data a) = length (data img) \<and> length (data b) = length (data img)
      \<and> length (data c) = length (data img) \<and> length (data d) = length (data img)
      \<and> (\<forall>i < length (data img). data a ! i = 1 \<longrightarrow> data b ! i = 1)
      \<and> (\<forall>i < length (data img). data d ! i = 1 \<longrightarrow> data c ! i = 1)
      \<and> (exact_at 0 (uniform_filter img sz (np_zeros (shape img) Float32) 0 0) img szs 0 0
            \<longrightarrow> data b = data a)
      \<and> (exact_at 1 (uniform_filter img sz (np_zeros (shape img) Float32) 0 1) img szs 0 1
            \<longrightarrow> data d = data c)"
proof -
  define n where "n = length (data img)"
  define eps where "eps = 1 / (2 * real (window_count szs))"
  have cnt: "0 < real (window_count szs)"
    using window_count_pos [of szs] by simp
  then have eps: "0 < eps" "2 * eps = 1 / real (window_count szs)"
    by (simp_all add: eps_def)
  from u0 obtain w0 where w0: "uniform_filter img sz (np_zeros (shape img) Float32) 0 0 = Inr w0"
    and c0: "\<And>i. i < n \<Longrightarrow> \<bar>w0 i - window_mean img szs 0 0 i\<bar> < eps"
    by (auto simp: returns_means_def n_def eps_def split: sum.splits)
  from u1 obtain w1 where w1: "uniform_filter img sz (np_zeros (shape img) Float32) 0 1 = Inr w1"
    and c1: "\<And>i. i < n \<Longrightarrow> \<bar>w1 i - window_mean img szs 0 1 i\<bar> < eps"
    by (auto simp: returns_means_def n_def eps_def split: sum.splits)
  define a where "a = max_filtered img szs 0"
  define c where "c = min_filtered img szs 0"
  have ra: "r_dilation maximum_filter img sz 0 = Inr a"
    by (simp add: r_dilation_def raised_def mx a_def)
  have rc: "r_erosion minimum_filter img sz 0 = Inr c"
    by (simp add: r_erosion_def raised_def mn c_def)
  have la: "length (data a) = n" and lc: "length (data c) = n"
    by (simp_all add: a_def c_def max_filtered_def min_filtered_def n_def)
  have va: "data a ! i = window_max img szs 0 i" if "i < n" for i
    using that by (simp add: a_def max_filtered_def n_def)
  have vc: "data c ! i = window_min img szs 0 i" if "i < n" for i
    using that by (simp add: c_def min_filtered_def n_def)
  from rb_dilation_data [where uniform_filter = uniform_filter and origin = 0, OF w0 len]
  obtain b where
    rb: "rb_dilation uniform_filter img sz 0 = Inr b" and lb: "length (data b) = n"
    and vb: "\<And>i. i < n \<Longrightarrow> data b ! i = (if 0 < w0 i then 1 else 0)"
    unfolding n_def by blast
  from rb_erosion_data [where uniform_filter = uniform_filter and origin = 0, OF w1 len]
  obtain d where
    rd: "rb_erosion uniform_filter img sz 0 = Inr d" and ld: "length (data d) = n"
    and vd: "\<And>i. i < n \<Longrightarrow> data d ! i = (if w1 i = 1 then 1 else 0)"
    unfolding n_def by blast
  have dil: "(window_max img szs 0 i = 1 \<and> 2 * eps \<le> window_mean img szs 0 0 i)
      \<or> (window_max img szs 0 i = 0 \<and> window_mean img szs 0 0 i = 0)" if "i < n" for i
    using dilation_pixel [OF bin len rank, of i] that by (simp add: n_def eps(2))
  have ero: "(window_min img szs 0 i = 1 \<and> window_mean img szs 0 1 i = 1)
      \<or> (window_min img szs 0 i = 0 \<and> window_mean img szs 0 1 i \<le> 1 - 2 * eps)" if "i < n" for i
    using erosion_pixel [OF bin len rank, of i] that by (simp add: n_def eps(2))
  have t1: "data b ! i = 1" if "i < n" "data a ! i = 1" for i
  proof -
    from dil [OF that(1)] that(2) va [OF that(1)] have "2 * eps \<le> window_mean img szs 0 0 i"
      by auto
    with c0 [OF that(1)] eps(1) have "0 < w0 i" by linarith
    with vb [OF that(1)] show ?thesis by simp
  qed
  have t2: "data c ! i = 1" if "i < n" "data d ! i = 1" for i
  proof -
    from that(2) vd [OF that(1)] have "w1 i = 1"
      by (auto split: if_splits)
    with c1 [OF that(1)] eps(1) have "\<not> window_mean img szs 0 1 i \<le> 1 - 2 * eps" by linarith
    with ero [OF that(1)] vc [OF that(1)] show ?thesis by auto
  qed
  have e0: "data b = data a"
    if "exact_at 0 (uniform_filter img sz (np_zeros (shape img) Float32) 0 0) img szs 0 0"
  proof (rule nth_equalityI)
    show "length (data b) = length (data a)" by (simp add: la lb)
    fix i assume "i < length (data b)"
    then have i: "i < n" by (simp add: lb)
    from that i have x: "window_mean img szs 0 0 i = 0 \<Longrightarrow> w0 i = 0"
      by (simp add: exact_at_def w0 n_def)
    from dil [OF i] show "data b ! i = data a ! i"
    proof
      assume "window_max img szs 0 i = 1 \<and> 2 * eps \<le> window_mean img szs 0 0 i"
      then have "data a ! i = 1" by (simp add: va [OF i])
      with t1 [OF i] show ?thesis by simp
    next
      assume "window_max img szs 0 i = 0 \<and> window_mean img szs 0 0 i = 0"
      with x va [OF i] vb [OF i] show ?thesis by simp
    qed
  qed
  have e1: "data d = data c"
    if "exact_at 1 (uniform_filter img sz (np_zeros (shape img) Float32) 0 1) img szs 0 1"
  proof (rule nth_equalityI)
    show "length (data d) = length (data c)" by (simp add: lc ld)
    fix i assume "i < length (data d)"
    then have i: "i < n" by (simp add: ld)
    from that i have x: "window_mean img szs 0 1 i = 1 \<Longrightarrow> w1 i = 1"
      by (simp add: exact_at_def w1 n_def)
    from ero [OF i] show "data d ! i = data c ! i"
    proof
      assume "window_min img szs 0 i = 1 \<and> window_mean img szs 0 1 i = 1"
      with x va vc [OF i] vd [OF i] show ?thesis by simp
    next
      assume z: "window_min img szs 0 i = 0 \<and> window_mean img szs 0 1 i \<le> 1 - 2 * eps"
      with c1 [OF i] eps(1) have "w1 i \<noteq> 1" by linarith
      with z vc [OF i] vd [OF i] show ?thesis by simp
    qed
  qed
  from ra rb rc rd la lb lc ld t1 t2 e0 e1 show ?thesis
    unfolding n_def by blast
qed


theorem uniform_filters_agree_at_origin_zero_witness:
  "r_dilation maximum_filter_1d closing_input 3 0
     = Inr \<lparr>shape = [4], dtype = UInt8, data = [1, 1, 1, 0]\<rparr>
   \<and> rb_dilation uniform_filter_1d closing_input 3 0
     = Inr \<lparr>shape = [4], dtype = Int32, data = [1, 1, 1, 0]\<rparr>
   \<and> r_erosion minimum_filter_1d erosion_input 3 0
     = Inr \<lparr>shape = [4], dtype = UInt8, data = [0, 0, 0, 1]\<rparr>
   \<and> rb_erosion uniform_filter_1d erosion_input 3 0
     = Inr \<lparr>shape = [4], dtype = Int32, data = [0, 0, 0, 1]\<rparr>
   \<and> maximum_filter_1d closing_input 3 0 = Inr (max_filtered closing_input [3] 0)
   \<and> minimum_filter_1d erosion_input 3 0 = Inr (min_filtered erosion_input [3] 0)
   \<and> returns_means (uniform_filter_1d closing_input 3 (np_zeros [4] Float32) 0 0)
       closing_input [3] 0 0
   \<and> exact_at 0 (uniform_filter_1d closing_input 3 (np_zeros [4] Float32) 0 0)
       closing_input [3] 0 0
   \<and> returns_means (uniform_filter_1d erosion_input 3 (np_zeros [4] Float32) 0 1)
       erosion_input [3] 0 1
   \<and> exact_at 1 (uniform_filter_1d erosion_input 3 (np_zeros [4] Float32) 0 1)
       erosion_input [3] 0 1
   \<and> (\<exists>a b. r_dilation maximum_filter_1d closing_input 3 0 = Inr a
         \<and> rb_dilation uniform_filter_1d closing_input 3 0 = Inr b \<and> data b = data a)
   \<and> (\<exists>c d. r_erosion minimum_filter_1d erosion_input 3 0 = Inr c
         \<and> rb_erosion uniform_filter_1d erosion_input 3 0 = Inr d \<and> data d = data c)"
proof -
  have v1: "r_dilation maximum_filter_1d closing_input 3 0
      = Inr \<lparr>shape = [4], dtype = UInt8, data = [1, 1, 1, 0]\<rparr>"
    by code_simp
  have v2: "rb_dilation uniform_filter_1d closing_input 3 0
      = Inr \<lparr>shape = [4], dtype = Int32, data = [1, 1, 1, 0]\<rparr>"
    by code_simp
  have v3: "r_erosion minimum_filter_1d erosion_input 3 0
      = Inr \<lparr>shape = [4], dtype = UInt8, data = [0, 0, 0, 1]\<rparr>"
    by code_simp
  have v4: "rb_erosion uniform_filter_1d erosion_input 3 0
      = Inr \<lparr>shape = [4], dtype = Int32, data = [0, 0, 0, 1]\<rparr>"
    by code_simp
  have sc: "shape closing_input = [4]" and se: "shape erosion_input = [4]"
    by (simp_all add: closing_input_def erosion_input_def)
  have bc: "\<forall>x \<in> set (data closing_input). x = 0 \<or> x = 1"
    and lc: "length (data closing_input) = prod_list (shape closing_input)"
    by (simp_all add: closing_input_def)
  have be: "\<forall>x \<in> set (data erosion_input). x = 0 \<or> x = 1"
    and le: "length (data erosion_input) = prod_list (shape erosion_input)"
    by (simp_all add: erosion_input_def)
  have mxc: "maximum_filter_1d closing_input 3 0 = Inr (max_filtered closing_input [3] 0)"
    by code_simp
  have mnc: "minimum_filter_1d closing_input 3 0 = Inr (min_filtered closing_input [3] 0)"
    by code_simp
  have mxe: "maximum_filter_1d erosion_input 3 0 = Inr (max_filtered erosion_input [3] 0)"
    by code_simp
  have mne: "minimum_filter_1d erosion_input 3 0 = Inr (min_filtered erosion_input [3] 0)"
    by code_simp
  have c0: "returns_means (uniform_filter_1d closing_input 3 (np_zeros [4] Float32) 0 0)
      closing_input [3] 0 0"
    by code_simp
  have c1: "returns_means (uniform_filter_1d closing_input 3 (np_zeros [4] Float32) 0 1)
      closing_input [3] 0 1"
    by code_simp
  have e0: "returns_means (uniform_filter_1d erosion_input 3 (np_zeros [4] Float32) 0 0)
      erosion_input [3] 0 0"
    by code_simp
  have e1: "returns_means (uniform_filter_1d erosion_input 3 (np_zeros [4] Float32) 0 1)
      erosion_input [3] 0 1"
    by code_simp
  have xc: "exact_at 0 (uniform_filter_1d closing_input 3 (np_zeros [4] Float32) 0 0)
      closing_input [3] 0 0"
    by code_simp
  have xe: "exact_at 1 (uniform_filter_1d erosion_input 3 (np_zeros [4] Float32) 0 1)
      erosion_input [3] 0 1"
    by code_simp
  have rc: "length [3 :: int] = length (shape closing_input)"
    and re: "length [3 :: int] = length (shape erosion_input)"
    by (simp_all add: sc se)
  from uniform_filters_agree_at_origin_zero
    [where img = closing_input and maximum_filter = maximum_filter_1d
      and minimum_filter = minimum_filter_1d and uniform_filter = uniform_filter_1d,
      OF bc lc rc mxc mnc c0 [folded sc] c1 [folded sc]] xc
  have d: "\<exists>a b. r_dilation maximum_filter_1d closing_input 3 0 = Inr a
      \<and> rb_dilation uniform_filter_1d closing_input 3 0 = Inr b \<and> data b = data a"
    unfolding sc by blast
  from uniform_filters_agree_at_origin_zero
    [where img = erosion_input and maximum_filter = maximum_filter_1d
      and minimum_filter = minimum_filter_1d and uniform_filter = uniform_filter_1d,
      OF be le re mxe mne e0 [folded se] e1 [folded se]] xe
  have e: "\<exists>c d. r_erosion minimum_filter_1d erosion_input 3 0 = Inr c
      \<and> rb_erosion uniform_filter_1d erosion_input 3 0 = Inr d \<and> data d = data c"
    unfolding se by blast
  from v1 v2 v3 v4 mxc mne c0 xc e1 xe d e show ?thesis
    by (intro conjI)
qed


subsection \<open>label and the dtype names\<close>

text \<open>
  A coercion that refuses the name \<open>"unit64"\<close>, as NumPy does, makes the fourth round
  of the loop a round without a call of the routine: the wrapper tries int32, uint32,
  int64, int16 and uint16.
\<close>

lemma retry_types_unit64:
  assumes "\<And>a. \<exists>e. np_array ''unit64'' a = Inl e"
  shows "retry routine np_array types img =
    retry routine np_array [''int32'', ''uint32'', ''int64'', ''int16'', ''uint16''] img"
proof -
  from assms obtain e where "np_array ''unit64'' img = Inl e" by blast
  then show ?thesis by (simp add: types_def split: sum.splits)
qed

text \<open>
  Claim C1, at an object array that holds \<open>2 ** 63\<close>. The routine refuses the object
  array; the coercions to int32, uint32 and int64 overflow; \<open>"unit64"\<close> is no dtype
  name; int16 and uint16 overflow: \<open>label\<close> ends with the routine's exception for the
  original array. With \<open>"uint64"\<close> in the list the fourth round returns the labelling
  \<open>([1], 1)\<close> of the uint64 array.
\<close>

theorem label_never_tries_uint64:
  "label label_1d np_array_ints object_input = Inl LibTypeError
   \<and> np_array_ints ''unit64'' object_input = Inl LibTypeError
   \<and> np_array_ints ''uint64'' object_input
       = Inr \<lparr>shape = [1], dtype = UInt64, data = [2 ^ 63]\<rparr>
   \<and> retry label_1d np_array_ints types object_input = None
   \<and> retry label_1d np_array_ints types_with_uint64 object_input = Some ([1], 1)"
  by code_simp

subsection \<open>select_regions and nbest\<close>

text \<open>
  Claim C2, at \<open>nbest = 0\<close>. The image \<open>[0, 1, 1, 0, 1, 0]\<close> has two components, with
  scores 2 and 1. With \<open>nbest = 1\<close> the higher-scoring one is kept; with \<open>nbest = 0\<close>
  the slice \<open>best[-0:]\<close> is the whole list and both components are kept.
\<close>

theorem select_regions_nbest_zero:
  "select_regions label_1d np_array_ints find_objects_1d np_array_labels_1d np_argsort
     components_input slice_length 0 0 = Inr [0, 1, 1, 0, 1, 0]
   \<and> select_regions label_1d np_array_ints find_objects_1d np_array_labels_1d np_argsort
     components_input slice_length 0 1 = Inr [0, 1, 1, 0, 0, 0]
   \<and> py_tail 0 [1, 0 :: nat] = [1, 0]"
  by code_simp

subsection \<open>correspondences and the int32 range\<close>

text \<open>
  Claim C4, at the int32 arrays \<open>labels1 = [21475]\<close> and \<open>labels2 = [0]\<close>. The packed
  value \<open>21475 * 100000\<close> is above \<open>2 ** 31 - 1\<close> and wraps around to \<open>-2147467296\<close>,
  which unpacks to the pair \<open>(-21475, 32704)\<close>; the pair of labels that occurs is
  \<open>(21475, 0)\<close>.
\<close>

theorem correspondences_wraps:
  "correspondences [21475] [0]
     = (Inr ([- 21475], [32704]) :: lib_error py_error + int list \<times> int list)
   \<and> wrap32 (21475 * q) = - 2147467296
   \<and> correspondences [21474] [0]
     = (Inr ([21474], [0]) :: lib_error py_error + int list \<times> int list)"
  by code_simp

subsection \<open>spread_labels\<close>












subsection \<open>spread_labels on an array of more than \<open>2 ^ 31\<close> pixels\<close>












subsection \<open>spread_labels on arrays of fewer than \<open>2 ^ 31\<close> pixels\<close>




subsection \<open>The propagation loops and the int32 range\<close>

lemma py_index_less: "py_index n i = Some j \<Longrightarrow> j < n"
  by (auto simp: py_index_def split: if_splits)

lemma conflict_loop_frame:
  assumes "\<forall>(o', i) \<in> set cs. \<exists>j. py_index (length outs) o' = Some j \<and> j \<noteq> k"
  shows "\<exists>outs'. conflict_loop cs outs = (Inr outs' :: 'e py_error + int list)
      \<and> length outs' = length outs \<and> outs' ! k = outs ! k"
  using assms
proof (induction cs arbitrary: outs)
  case Nil
  then show ?case by simp
next
  case (Cons c cs)
  obtain o' i where c: "c = (o', i)" by (cases c)
  from Cons.prems c obtain j where j: "py_index (length outs) o' = Some j" "j \<noteq> k"
    by auto
  define outs1 where "outs1 = outs[j := (if outs ! j \<noteq> 0 then oops_value else i)]"
  have "\<forall>(o', i) \<in> set cs. \<exists>j. py_index (length outs1) o' = Some j \<and> j \<noteq> k"
    using Cons.prems by (simp add: outs1_def)
  from Cons.IH [OF this] obtain outs' where
    "conflict_loop cs outs1 = (Inr outs' :: 'e py_error + int list)"
    "length outs' = length outs1" "outs' ! k = outs1 ! k"
    by blast
  moreover have "conflict_loop (c # cs) outs = (conflict_loop cs outs1 :: 'e py_error + int list)"
    by (simp add: c getitem_def setitem_def j outs1_def)
  moreover have "length outs1 = length outs" "outs1 ! k = outs ! k"
    using j by (simp_all add: outs1_def)
  ultimately show ?case by simp
qed

lemma assign_loop_frame:
  assumes "\<forall>(o', i) \<in> set cs. \<exists>j. py_index (length outs) o' = Some j \<and> j \<noteq> k"
  shows "\<exists>outs'. assign_loop cs outs = (Inr outs' :: 'e py_error + int list)
      \<and> length outs' = length outs \<and> outs' ! k = outs ! k"
  using assms
proof (induction cs arbitrary: outs)
  case Nil
  then show ?case by simp
next
  case (Cons c cs)
  obtain o' i where c: "c = (o', i)" by (cases c)
  from Cons.prems c obtain j where j: "py_index (length outs) o' = Some j" "j \<noteq> k"
    by auto
  define outs1 where "outs1 = outs[j := i]"
  have "\<forall>(o', i) \<in> set cs. \<exists>j. py_index (length outs1) o' = Some j \<and> j \<noteq> k"
    using Cons.prems by (simp add: outs1_def)
  from Cons.IH [OF this] obtain outs' where
    "assign_loop cs outs1 = (Inr outs' :: 'e py_error + int list)"
    "length outs' = length outs1" "outs' ! k = outs1 ! k"
    by blast
  moreover have "assign_loop (c # cs) outs = (assign_loop cs outs1 :: 'e py_error + int list)"
    by (simp add: c setitem_def j outs1_def)
  moreover have "length outs1 = length outs" "outs1 ! k = outs ! k"
    using j by (simp_all add: outs1_def)
  ultimately show ?case by simp
qed

lemma nth_blocks:
  assumes "i < length xs" "r < 3" "\<And>x. length (f x) = 3"
  shows "concat (map f xs) ! (3 * i + r) = f (xs ! i) ! r"
  using assms(1)
proof (induction xs arbitrary: i)
  case Nil
  then show ?case by simp
next
  case (Cons x xs)
  show ?case
  proof (cases i)
    case 0
    with assms(2,3) show ?thesis by (simp add: nth_append)
  next
    case (Suc i')
    with Cons.prems have "i' < length xs" by simp
    from Cons.IH [OF this] Suc assms(2,3) show ?thesis
      by (simp add: nth_append)
  qed
qed

lemma length_blocks:
  assumes "\<And>x. length (f x) = 3"
  shows "length (concat (map f xs)) = 3 * length xs"
  by (induction xs) (simp_all add: assms)

lemma label_runs_blocks:
  "label_runs n False (concat (replicate k [1::int, 1, 0]))
     = concat (map (\<lambda>j. [n + int j, n + int j, 0]) [1..<Suc k])"
proof (induction k arbitrary: n)
  case 0
  then show ?case by simp
next
  case (Suc k)
  have "[1..<Suc (Suc k)] = 1 # map Suc [1..<Suc k]"
    by (simp add: upt_conv_Cons map_Suc_upt del: upt_Suc)
  then have "concat (map (\<lambda>j. [n + int j, n + int j, 0]) [1..<Suc (Suc k)])
      = [n + 1, n + 1, 0] @ concat (map (\<lambda>j. [n + 1 + int j, n + 1 + int j, 0]) [1..<Suc k])"
    by (simp add: comp_def add.assoc del: upt_Suc)
  with Suc [of "n + 1"] show ?case
    by (simp del: upt_Suc)
qed

lemma many_pos: "0 < many"
  by (simp add: many_def)

lemma length_many_rlabels: "length many_rlabels = 3 * many"
  by (simp add: many_rlabels_def length_blocks del: upt_Suc)

lemma length_concat_replicate3: "length (concat (replicate n [a, b, c])) = 3 * n"
  by (induction n) simp_all

lemma length_many_labels: "length many_labels = 3 * many"
  by (simp add: many_labels_def length_concat_replicate3)

lemma set_many_rlabels: "set many_rlabels = insert 0 (int ` {1..many})"
proof -
  have "{1..<Suc many} \<noteq> {}"
    using many_pos by auto
  then show ?thesis
    by (auto simp: many_rlabels_def simp del: upt_Suc)
qed

lemma set_many_labels: "set many_labels = {5, 6, 0}"
  using many_pos by (auto simp: many_labels_def)

lemma max_many_rlabels: "Max (set (0 # many_rlabels)) = int many"
proof (rule Max_eqI)
  show "finite (set (0 # many_rlabels))" by simp
  show "y \<le> int many" if "y \<in> set (0 # many_rlabels)" for y
    using that by (auto simp: set_many_rlabels)
  show "int many \<in> set (0 # many_rlabels)"
    using many_pos by (auto simp: set_many_rlabels)
qed

lemma label_many: "label label_1d np_array_ints many_components = Inr (many_rlabels, int many)"
proof -
  have "label_runs 0 False (data many_components) = many_rlabels"
    unfolding many_components_def many_rlabels_def
    using label_runs_blocks [of 0 many] by (simp del: upt_Suc)
  moreover have "Max (insert 0 (set many_rlabels)) = int many"
    using max_many_rlabels by simp
  ultimately have "label_1d many_components = Inr (many_rlabels, int many)"
    by (simp add: label_1d_def Let_def many_components_def)
  then show ?thesis
    by (simp add: label_def)
qed


lemma pack_fits:
  assumes "0 \<le> a" "0 \<le> b" "a * q + b < 2 ^ 31"
  shows "pack a b = a * q + b"
proof -
  have q: "0 < q" by (simp add: q_def)
  from assms q have "0 \<le> a * q" by simp
  moreover from assms have "a * q < 2 ^ 31" by linarith
  ultimately have "wrap32 (a * q) = a * q"
    by (intro wrap32_id) simp_all
  moreover have "wrap32 (a * q + b) = a * q + b"
    using assms \<open>0 \<le> a * q\<close> by (intro wrap32_id) simp_all
  ultimately show ?thesis by (simp add: pack_def)
qed

lemma unpack_div: "0 \<le> b \<Longrightarrow> b < q \<Longrightarrow> (a * q + b) div q = a"
  by (simp add: q_def)

lemma unpack_mod: "0 \<le> b \<Longrightarrow> b < q \<Longrightarrow> (a * q + b) mod q = b"
  by (simp add: q_def)

lemma many_pair_index:
  assumes a: "a \<in> set many_rlabels" and b: "b \<in> set many_labels"
  shows "\<exists>j. py_index (Suc many) (pack a b div q) = Some j \<and> j \<noteq> many"
proof (cases "a = 21475")
  case True
  from b have "b = 5 \<or> b = 6 \<or> b = 0" by (simp add: set_many_labels)
  then have "pack a b div q = - 21475"
    using True by (auto simp: pack_def wrap32_def q_def)
  then show ?thesis
    by (simp add: py_index_def many_def)
next
  case False
  from a have "0 \<le> a" "a \<le> 21475"
    by (auto simp: set_many_rlabels many_def)
  with False have a': "a \<le> 21474" by simp
  from b have b': "0 \<le> b" "b \<le> 6" by (auto simp: set_many_labels)
  have "a * q + b < 2 ^ 31"
    using a' b' by (simp add: q_def)
  with \<open>0 \<le> a\<close> b' have "pack a b = a * q + b"
    by (intro pack_fits) simp_all
  moreover have "(a * q + b) div q = a"
    using b' by (intro unpack_div) (simp_all add: q_def)
  ultimately have "pack a b div q = a" by simp
  with \<open>0 \<le> a\<close> a' show ?thesis
    by (simp add: py_index_def many_def)
qed

lemma many_correspondences:
  "\<exists>u. correspondences many_rlabels many_labels
       = (Inr (map (\<lambda>v. v div q) u, map (\<lambda>v. v mod q) u) :: 'e py_error + int list \<times> int list)
     \<and> set u = (\<lambda>(a, b). pack a b) ` set (zip many_rlabels many_labels)"
proof -
  have ne: "many_rlabels \<noteq> []" "many_labels \<noteq> []"
    using many_pos length_many_rlabels length_many_labels by auto
  have m1: "0 \<le> Min (set many_rlabels)"
    using ne by (auto simp: set_many_rlabels)
  have m2: "0 \<le> Min (set many_labels)" "Max (set many_labels) < q"
    by (simp_all add: set_many_labels q_def)
  define c where "c = map2 pack many_rlabels many_labels"
  have cm: "combo many_rlabels many_labels = (Inr c :: 'e py_error + int list)"
    by (simp add: combo_def c_def length_many_rlabels length_many_labels pack_def [abs_def])
  have "correspondences many_rlabels many_labels
      = (Inr (map (\<lambda>v. v div q) (np_unique c), map (\<lambda>v. v mod q) (np_unique c))
         :: 'e py_error + int list \<times> int list)"
    by (simp add: correspondences_def np_amin_def np_amax_def ne m1 m2 cm Let_def)
  moreover have "set (np_unique c) = (\<lambda>(a, b). pack a b) ` set (zip many_rlabels many_labels)"
    by (simp add: np_unique_def c_def)
  ultimately show ?thesis by blast
qed


lemma many_pairs_miss:
  assumes "set u = (\<lambda>(a, b). pack a b) ` set (zip many_rlabels many_labels)"
  shows "\<forall>(o', i) \<in> set (zip (map (\<lambda>v. v div q) u) (map (\<lambda>v. v mod q) u)).
           \<exists>j. py_index (Suc many) o' = Some j \<and> j \<noteq> many"
proof -
  have "\<exists>j. py_index (Suc many) (v div q) = Some j \<and> j \<noteq> many" if "v \<in> set u" for v
  proof -
    from that assms obtain a b where "(a, b) \<in> set (zip many_rlabels many_labels)" "v = pack a b"
      by auto
    then show ?thesis
      using many_pair_index [of a b] by (auto dest: set_zip_leftD set_zip_rightD)
  qed
  moreover have "zip (map (\<lambda>v. v div q) u) (map (\<lambda>v. v mod q) u) = map (\<lambda>v. (v div q, v mod q)) u"
    by (simp add: zip_map_map zip_same_conv_map)
  ultimately show ?thesis by auto
qed

lemma many_rlabels_nth: "many_rlabels ! (3 * (many - 1)) = int many"
  and many_rlabels_nth1: "many_rlabels ! (3 * (many - 1) + 1) = int many"
proof -
  have i: "many - 1 < length [1..<Suc many]"
    using many_pos by simp
  have e: "[1..<Suc many] ! (many - 1) = many"
    using many_pos by (simp add: nth_upt del: upt_Suc)
  from nth_blocks [OF i, of 0 "\<lambda>j. [int j, int j, 0]"] e
  show "many_rlabels ! (3 * (many - 1)) = int many"
    by (simp add: many_rlabels_def del: upt_Suc)
  from nth_blocks [OF i, of 1 "\<lambda>j. [int j, int j, 0]"] e
  show "many_rlabels ! (3 * (many - 1) + 1) = int many"
    by (simp add: many_rlabels_def del: upt_Suc)
qed

lemma many_labels_nth: "many_labels ! (3 * (many - 1)) = 5"
  and many_labels_nth1: "many_labels ! (3 * (many - 1) + 1) = 6"
proof -
  have m: "many_labels = concat (map (\<lambda>j. [5, 6, 0]) [1..<Suc many])"
    by (simp add: many_labels_def map_replicate_const del: upt_Suc)
  have i: "many - 1 < length [1..<Suc many]"
    using many_pos by simp
  from nth_blocks [OF i, of 0 "\<lambda>j. [5, 6, 0 :: int]"]
  show "many_labels ! (3 * (many - 1)) = 5"
    by (simp add: m del: upt_Suc)
  from nth_blocks [OF i, of 1 "\<lambda>j. [5, 6, 0 :: int]"]
  show "many_labels ! (3 * (many - 1) + 1) = 6"
    by (simp add: m del: upt_Suc)
qed

lemma take_items_many:
  assumes "length outs = Suc many"
  shows "take_items outs many_rlabels
     = (Inr (map (\<lambda>i. outs ! nat i) many_rlabels) :: 'e py_error + int list)"
  by (rule take_items_in_range) (auto simp: set_many_rlabels assms)


lemma propagate_labels_many:
  "\<exists>out. propagate_labels label_1d np_array_ints many_components many_labels 7 = Inr out
     \<and> out ! (3 * (many - 1)) = 0"
proof -
  obtain u where cor: "correspondences many_rlabels many_labels
        = (Inr (map (\<lambda>v. v div q) u, map (\<lambda>v. v mod q) u)
           :: lib_error py_error + int list \<times> int list)"
    and u: "set u = (\<lambda>(a, b). pack a b) ` set (zip many_rlabels many_labels)"
    using many_correspondences by blast
  define cs where "cs = zip (map (\<lambda>v. v div q) u) (map (\<lambda>v. v mod q) u)"
  define outs0 :: "int list" where "outs0 = replicate (Suc many) 0"
  have mx: "np_amax many_rlabels = (Inr (int many) :: lib_error py_error + int)"
    using max_many_rlabels many_pos length_many_rlabels
    by (auto simp: np_amax_def set_many_rlabels intro!: Max_eqI)
  have z: "nat (int many + 1) = Suc many" by simp
  have "\<forall>(o', i) \<in> set cs. \<exists>j. py_index (length outs0) o' = Some j \<and> j \<noteq> many"
    using many_pairs_miss [OF u] by (simp add: cs_def outs0_def)
  from conflict_loop_frame [OF this] obtain outs1 where
    l1: "conflict_loop cs outs0 = (Inr outs1 :: lib_error py_error + int list)"
    and n1': "length outs1 = length outs0" and v1': "outs1 ! many = outs0 ! many"
    by blast
  have n1: "length outs1 = Suc many" and v1: "outs1 ! many = 0"
    using n1' v1' by (simp_all add: outs0_def del: replicate_Suc)
  define outs2 where "outs2 = map (\<lambda>v. if v = oops_value then 7 else v) outs1"
  have l2: "replace_oops 7 outs1 = (Inr outs2 :: lib_error py_error + int list)"
    by (simp add: replace_oops_def outs2_def)
  have v2: "outs2 ! many = 0" and n2: "length outs2 = Suc many"
    using v1 n1 by (simp_all add: outs2_def oops_value_def)
  define outs3 where "outs3 = outs2[0 := 0]"
  have l3: "setitem outs2 0 0 = (Inr outs3 :: lib_error py_error + int list)"
    by (simp add: setitem_def py_index_def n2 outs3_def)
  have v3: "outs3 ! many = 0" and n3: "length outs3 = Suc many"
    using v2 n2 many_pos by (simp_all add: outs3_def)
  have "propagate_labels label_1d np_array_ints many_components many_labels 7
      = Inr (map (\<lambda>i. outs3 ! nat i) many_rlabels)"
    by (simp add: propagate_labels_def label_many cor mx z l1 [unfolded cs_def outs0_def]
        l2 l3 take_items_many [OF n3] del: replicate.simps)
  moreover have "map (\<lambda>i. outs3 ! nat i) many_rlabels ! (3 * (many - 1)) = 0"
    using many_pos many_rlabels_nth v3 by (simp add: length_many_rlabels)
  ultimately show ?thesis by blast
qed

lemma propagate_labels_simple_many:
  "\<exists>out. propagate_labels_simple label_1d np_array_ints many_components many_labels = Inr out
     \<and> out ! (3 * (many - 1)) = 0"
proof -
  obtain u where cor: "correspondences many_rlabels many_labels
        = (Inr (map (\<lambda>v. v div q) u, map (\<lambda>v. v mod q) u)
           :: lib_error py_error + int list \<times> int list)"
    and u: "set u = (\<lambda>(a, b). pack a b) ` set (zip many_rlabels many_labels)"
    using many_correspondences by blast
  define cs where "cs = zip (map (\<lambda>v. v div q) u) (map (\<lambda>v. v mod q) u)"
  define outs0 :: "int list" where "outs0 = replicate (Suc many) 0"
  have mx: "np_amax many_rlabels = (Inr (int many) :: lib_error py_error + int)"
    using max_many_rlabels many_pos length_many_rlabels
    by (auto simp: np_amax_def set_many_rlabels intro!: Max_eqI)
  have z: "nat (int many + 1) = Suc many" by simp
  have "\<forall>(o', i) \<in> set cs. \<exists>j. py_index (length outs0) o' = Some j \<and> j \<noteq> many"
    using many_pairs_miss [OF u] by (simp add: cs_def outs0_def)
  from assign_loop_frame [OF this] obtain outs1 where
    l1: "assign_loop cs outs0 = (Inr outs1 :: lib_error py_error + int list)"
    and n1': "length outs1 = length outs0" and v1': "outs1 ! many = outs0 ! many"
    by blast
  have n1: "length outs1 = Suc many" and v1: "outs1 ! many = 0"
    using n1' v1' by (simp_all add: outs0_def del: replicate_Suc)
  define outs3 where "outs3 = outs1[0 := 0]"
  have l3: "setitem outs1 0 0 = (Inr outs3 :: lib_error py_error + int list)"
    by (simp add: setitem_def py_index_def n1 outs3_def)
  have v3: "outs3 ! many = 0" and n3: "length outs3 = Suc many"
    using v1 n1 many_pos by (simp_all add: outs3_def)
  have "propagate_labels_simple label_1d np_array_ints many_components many_labels
      = Inr (map (\<lambda>i. outs3 ! nat i) many_rlabels)"
    by (simp add: propagate_labels_simple_def label_many cor mx z l1 [unfolded cs_def outs0_def]
        l3 take_items_many [OF n3] del: replicate.simps)
  moreover have "map (\<lambda>i. outs3 ! nat i) many_rlabels ! (3 * (many - 1)) = 0"
    using many_pos many_rlabels_nth v3 by (simp add: length_many_rlabels)
  ultimately show ?thesis by blast
qed

text \<open>
  Claim C3, at an image with 21475 components. Component 21475 (pixels 64422 and
  64423) overlaps the labels 5 and 6, so the claim gives its pixels the value
  \<open>conflict = 7\<close>. Its packed values wrap around and unpack to the component number
  \<open>-21475\<close>: no column of the correspondences names component 21475, and its pixels
  get 0.
\<close>

theorem propagate_labels_overflow:
  "\<exists>rlabels out.
     label label_1d np_array_ints many_components = Inr (rlabels, 21475)
     \<and> rlabels ! 64422 = 21475 \<and> rlabels ! 64423 = 21475
     \<and> many_labels ! 64422 = 5 \<and> many_labels ! 64423 = 6
     \<and> propagate_labels label_1d np_array_ints many_components many_labels 7 = Inr out
     \<and> out ! 64422 = 0"
proof -
  have n: "3 * (many - 1) = 64422" and n1: "3 * (many - 1) + 1 = 64423"
    and m: "int many = 21475"
    by (simp_all add: many_def)
  from propagate_labels_many obtain out where
    o: "propagate_labels label_1d np_array_ints many_components many_labels 7 = Inr out"
    and z: "out ! 64422 = 0"
    unfolding n by blast
  have l: "label label_1d np_array_ints many_components = Inr (many_rlabels, 21475)"
    using label_many unfolding m .
  have r: "many_rlabels ! 64422 = 21475" "many_rlabels ! 64423 = 21475"
    using many_rlabels_nth many_rlabels_nth1 by (simp_all add: many_def)
  have b: "many_labels ! 64422 = 5" "many_labels ! 64423 = 6"
    using many_labels_nth many_labels_nth1 by (simp_all add: many_def)
  from l r b o z show ?thesis by blast
qed

text \<open>
  Claim C10, at the same input. Component 21475 overlaps the labels 5 and 6, so the
  claim gives its pixels the larger label 6; they get 0.
\<close>

theorem propagate_labels_simple_overflow:
  "\<exists>rlabels out.
     label label_1d np_array_ints many_components = Inr (rlabels, 21475)
     \<and> rlabels ! 64422 = 21475 \<and> rlabels ! 64423 = 21475
     \<and> many_labels ! 64422 = 5 \<and> many_labels ! 64423 = 6
     \<and> propagate_labels_simple label_1d np_array_ints many_components many_labels = Inr out
     \<and> out ! 64422 = 0"
proof -
  have n: "3 * (many - 1) = 64422" and n1: "3 * (many - 1) + 1 = 64423"
    and m: "int many = 21475"
    by (simp_all add: many_def)
  from propagate_labels_simple_many obtain out where
    o: "propagate_labels_simple label_1d np_array_ints many_components many_labels = Inr out"
    and z: "out ! 64422 = 0"
    unfolding n by blast
  have l: "label label_1d np_array_ints many_components = Inr (many_rlabels, 21475)"
    using label_many unfolding m .
  have r: "many_rlabels ! 64422 = 21475" "many_rlabels ! 64423 = 21475"
    using many_rlabels_nth many_rlabels_nth1 by (simp_all add: many_def)
  have b: "many_labels ! 64422 = 5" "many_labels ! 64423 = 6"
    using many_labels_nth many_labels_nth1 by (simp_all add: many_def)
  from l r b o z show ?thesis by blast
qed

subsection \<open>correspondences and propagation inside the int32 range\<close>

lemma distinct_remdups_adj_sorted: "sorted xs \<Longrightarrow> distinct (remdups_adj xs)"
proof (induction xs rule: remdups_adj.induct)
  case (3 x y xs)
  then show ?case by (cases "x = y") auto
qed simp_all

lemma np_unique_strict: "sorted_wrt (<) (np_unique xs)"
  by (simp add: np_unique_def strict_sorted_iff distinct_remdups_adj_sorted)

lemma set_np_unique: "set (np_unique xs) = set xs"
  by (simp add: np_unique_def)

lemma q_pos: "0 < q"
  by (simp add: q_def)

lemma combo_fits:
  assumes len: "length labels1 = length labels2"
    and nonneg: "\<forall>a \<in> set labels1. 0 \<le> a" "\<forall>b \<in> set labels2. 0 \<le> b"
    and fits: "\<forall>(a, b) \<in> set (zip labels1 labels2). a * q + b < 2 ^ 31"
  shows "combo labels1 labels2
     = (Inr (map (\<lambda>(a, b). a * q + b) (zip labels1 labels2)) :: 'e py_error + int list)"
proof -
  have "wrap32 (wrap32 (a * q) + b) = a * q + b" if "(a, b) \<in> set (zip labels1 labels2)" for a b
  proof -
    from that nonneg have "0 \<le> a" "0 \<le> b"
      by (auto dest: set_zip_leftD set_zip_rightD)
    moreover from that fits have "a * q + b < 2 ^ 31" by auto
    ultimately show ?thesis
      using pack_fits [of a b] by (simp add: pack_def)
  qed
  then have "map2 (\<lambda>a b. wrap32 (wrap32 (a * q) + b)) labels1 labels2
      = map (\<lambda>(a, b). a * q + b) (zip labels1 labels2)"
    by (intro map_cong) auto
  with len show ?thesis by (simp add: combo_def)
qed

text \<open>
  Where no packed value leaves the int32 range, \<open>correspondences\<close> returns exactly the
  pairs of labels that occur at some pixel, each once, in ascending order of the
  packed value.
\<close>

lemma correspondences_exact:
  assumes len: "length labels1 = length labels2" and ne: "labels1 \<noteq> []"
    and nonneg: "\<forall>a \<in> set labels1. 0 \<le> a" "\<forall>b \<in> set labels2. 0 \<le> b"
    and below: "\<forall>b \<in> set labels2. b < q"
    and fits: "\<forall>(a, b) \<in> set (zip labels1 labels2). a * q + b < 2 ^ 31"
  shows "\<exists>os ns. correspondences labels1 labels2 = (Inr (os, ns) :: 'e py_error + int list \<times> int list)
      \<and> length os = length ns
      \<and> set (zip os ns) = set (zip labels1 labels2)
      \<and> distinct (zip os ns)
      \<and> sorted_wrt (<) (map (\<lambda>(a, b). a * q + b) (zip os ns))"
proof -
  define c where "c = map (\<lambda>(a, b). a * q + b) (zip labels1 labels2)"
  define u where "u = np_unique c"
  define os where "os = map (\<lambda>v. v div q) u"
  define ns where "ns = map (\<lambda>v. v mod q) u"
  from len ne have ne2: "labels2 \<noteq> []" by auto
  have cm: "combo labels1 labels2 = (Inr c :: 'e py_error + int list)"
    unfolding c_def using len nonneg fits by (rule combo_fits)
  have "correspondences labels1 labels2 = (Inr (os, ns) :: 'e py_error + int list \<times> int list)"
    using ne ne2 nonneg below
    by (simp add: correspondences_def np_amin_def np_amax_def cm Let_def os_def ns_def u_def)
  moreover have z: "zip os ns = map (\<lambda>v. (v div q, v mod q)) u"
    by (simp add: os_def ns_def zip_map_map zip_same_conv_map)
  have repack: "map (\<lambda>(a, b). a * q + b) (zip os ns) = u"
    by (simp add: z comp_def) 
  have unpack: "(v div q, v mod q) = (a, b)"
    if "(a, b) \<in> set (zip labels1 labels2)" "v = a * q + b" for v a b
  proof -
    from that nonneg below have "0 \<le> b" "b < q"
      by (auto dest: set_zip_rightD)
    with that(2) show ?thesis
      by (simp add: unpack_div unpack_mod)
  qed
  have "set (zip os ns) = set (zip labels1 labels2)"
  proof -
    have "set (zip os ns) = (\<lambda>v. (v div q, v mod q)) ` set c"
      by (simp add: z u_def set_np_unique)
    also have "\<dots> = (\<lambda>(a, b). ((a * q + b) div q, (a * q + b) mod q)) ` set (zip labels1 labels2)"
      by (simp add: c_def image_image case_prod_unfold)
    also have "\<dots> = (\<lambda>p. p) ` set (zip labels1 labels2)"
      by (intro image_cong) (auto dest: unpack [OF _ refl])
    finally show ?thesis by simp
  qed
  moreover have s: "sorted_wrt (<) (map (\<lambda>(a, b). a * q + b) (zip os ns))"
    unfolding repack u_def by (rule np_unique_strict)
  moreover have "distinct (zip os ns)"
    using s by (simp add: strict_sorted_iff distinct_map)
  moreover have "length os = length ns"
    by (simp add: os_def ns_def)
  ultimately show ?thesis by blast
qed

text \<open>A negative label, or a label of \<open>labels2\<close> that is not below \<open>q\<close>, fails an assertion.\<close>

lemma correspondences_asserts:
  assumes len: "length labels1 = length labels2" and ne: "labels1 \<noteq> []"
    and bad: "(\<exists>a \<in> set labels1. a < 0) \<or> (\<exists>b \<in> set labels2. b < 0) \<or> (\<exists>b \<in> set labels2. q \<le> b)"
  shows "correspondences labels1 labels2 = (Inl AssertionError :: 'e py_error + int list \<times> int list)"
proof -
  from len ne have ne2: "labels2 \<noteq> []" by auto
  have m1: "0 \<le> Min (set labels1) \<longleftrightarrow> \<not> (\<exists>a \<in> set labels1. a < 0)"
    using ne by (auto simp: not_less)
  have m2: "0 \<le> Min (set labels2) \<longleftrightarrow> \<not> (\<exists>b \<in> set labels2. b < 0)"
    using ne2 by (auto simp: not_less)
  have m3: "Max (set labels2) < q \<longleftrightarrow> \<not> (\<exists>b \<in> set labels2. q \<le> b)"
    using ne2 by (auto simp: not_le)
  from bad show ?thesis
    using ne ne2 by (auto simp: correspondences_def np_amin_def np_amax_def m1 m2 m3)
qed

lemma finite_pairs_at: "finite (pairs_at cs k)"
proof -
  have "pairs_at cs k \<subseteq> snd ` set cs"
    by (force simp: pairs_at_def)
  then show ?thesis
    by (rule finite_subset) simp
qed

lemma pairs_at_snoc:
  "pairs_at (cs @ [(o', i)]) k = (if o' = int k then insert i (pairs_at cs k) else pairs_at cs k)"
  by (auto simp: pairs_at_def)

lemma assign_loop_append:
  "assign_loop (xs @ ys) outs =
     (case assign_loop xs outs of
        Inl e \<Rightarrow> (Inl e :: 'e py_error + int list)
      | Inr outs1 \<Rightarrow> assign_loop ys outs1)"
  by (induction xs arbitrary: outs) (auto split: sum.splits)

lemma conflict_loop_append:
  "conflict_loop (xs @ ys) outs =
     (case conflict_loop xs outs of
        Inl e \<Rightarrow> (Inl e :: 'e py_error + int list)
      | Inr outs1 \<Rightarrow> conflict_loop ys outs1)"
  by (induction xs arbitrary: outs) (auto split: sum.splits)

lemma sorted_snoc_less:
  assumes "sorted_wrt (<) (map (\<lambda>(a, b). a * q + b) (cs @ [(o', i)]))"
    and "i' \<in> pairs_at cs k" and "o' = int k"
  shows "i' < i"
proof -
  from assms(2) have "(int k, i') \<in> set cs" by (simp add: pairs_at_def)
  with assms(1) have "int k * q + i' < o' * q + i"
    by (force simp: sorted_wrt_append)
  with assms(3) show ?thesis by simp
qed

lemma assign_loop_sorted:
  assumes "sorted_wrt (<) (map (\<lambda>(a, b). a * q + b) cs)"
    and "\<forall>(o', i) \<in> set cs. 0 \<le> o' \<and> o' < int (length outs)"
  shows "\<exists>outs'. assign_loop cs outs = (Inr outs' :: 'e py_error + int list)
      \<and> length outs' = length outs
      \<and> (\<forall>k < length outs.
            outs' ! k = (if pairs_at cs k = {} then outs ! k else Max (pairs_at cs k)))"
  using assms
proof (induction cs rule: rev_induct)
  case Nil
  then show ?case by (simp add: pairs_at_def)
next
  case (snoc c cs)
  obtain o' i where c: "c = (o', i)" by (cases c)
  from snoc.prems have "sorted_wrt (<) (map (\<lambda>(a, b). a * q + b) cs)"
    and "\<forall>(o', i) \<in> set cs. 0 \<le> o' \<and> o' < int (length outs)"
    by (simp_all add: sorted_wrt_append)
  from snoc.IH [OF this] obtain outs1 where
    l1: "assign_loop cs outs = (Inr outs1 :: 'e py_error + int list)"
    and n1: "length outs1 = length outs"
    and v1: "\<And>k. k < length outs \<Longrightarrow>
        outs1 ! k = (if pairs_at cs k = {} then outs ! k else Max (pairs_at cs k))"
    by blast
  from snoc.prems(2) c have o: "0 \<le> o'" "o' < int (length outs)" by simp_all
  then have ix: "py_index (length outs1) o' = Some (nat o')"
    by (simp add: py_index_def n1)
  have l2: "assign_loop (cs @ [c]) outs = (Inr (outs1[nat o' := i]) :: 'e py_error + int list)"
    by (simp add: assign_loop_append l1 c setitem_def ix)
  have "(outs1[nat o' := i]) ! k
      = (if pairs_at (cs @ [c]) k = {} then outs ! k else Max (pairs_at (cs @ [c]) k))"
    if k: "k < length outs" for k
  proof (cases "o' = int k")
    case True
    have "Max (insert i (pairs_at cs k)) = i"
    proof (rule Max_eqI)
      show "finite (insert i (pairs_at cs k))" by (simp add: finite_pairs_at)
      show "y \<le> i" if "y \<in> insert i (pairs_at cs k)" for y
        using that sorted_snoc_less [OF snoc.prems(1) [unfolded c] _ True, of y] by auto
      show "i \<in> insert i (pairs_at cs k)" by simp
    qed
    with True k n1 show ?thesis
      by (simp add: c pairs_at_snoc)
  next
    case False
    with o have "nat o' \<noteq> k" by auto
    with False v1 [OF k] show ?thesis
      by (simp add: c pairs_at_snoc)
  qed
  with l2 n1 show ?case by simp
qed


lemma conflict_value_step:
  assumes old: "conflict_value (S - {0}) v"
    and less: "\<forall>i' \<in> S. 0 \<le> i' \<and> i' < i"
    and i: "0 \<le> i"
  shows "conflict_value (insert i S - {0}) (if v \<noteq> 0 then oops_value else i)"
proof (cases "i = 0")
  case True
  with less have "S = {}" by force
  with old True show ?thesis
    by (auto simp: conflict_value_def)
next
  case False
  from less have notin: "i \<notin> S" by auto
  have ins: "insert i S - {0} = insert i (S - {0})"
    using False by auto
  have oz: "oops_value \<noteq> 0" by (simp add: oops_value_def)
  from old consider
    (none) "S - {0} = {}" "v = 0"
    | (one) x where "S - {0} = {x}" "v = x"
    | (several) x y where "x \<in> S - {0}" "y \<in> S - {0}" "x \<noteq> y" "v = oops_value"
    by (auto simp: conflict_value_def)
  then show ?thesis
  proof cases
    case none
    then have e: "insert i (S - {0}) = {i}" by blast
    show ?thesis
      unfolding ins e conflict_value_def using none(2) by simp
  next
    case one
    then have "x \<noteq> 0" "x \<in> S" by auto
    with notin have "x \<noteq> i" by auto
    with one \<open>x \<noteq> 0\<close> show ?thesis
      unfolding ins conflict_value_def by auto
  next
    case several
    then show ?thesis
      unfolding ins conflict_value_def using oz by auto
  qed
qed

lemma conflict_loop_sorted:
  assumes "sorted_wrt (<) (map (\<lambda>(a, b). a * q + b) cs)"
    and "\<forall>(o', i) \<in> set cs. 0 \<le> o' \<and> o' < int n \<and> 0 \<le> i"
  shows "\<exists>outs'. conflict_loop cs (replicate n 0) = (Inr outs' :: 'e py_error + int list)
      \<and> length outs' = n
      \<and> (\<forall>k < n. conflict_value (pairs_at cs k - {0}) (outs' ! k))"
  using assms
proof (induction cs rule: rev_induct)
  case Nil
  then show ?case by (simp add: pairs_at_def conflict_value_def)
next
  case (snoc c cs)
  obtain o' i where c: "c = (o', i)" by (cases c)
  from snoc.prems have "sorted_wrt (<) (map (\<lambda>(a, b). a * q + b) cs)"
    and rng: "\<forall>(o', i) \<in> set cs. 0 \<le> o' \<and> o' < int n \<and> 0 \<le> i"
    by (simp_all add: sorted_wrt_append)
  from snoc.IH [OF this] obtain outs1 where
    l1: "conflict_loop cs (replicate n 0) = (Inr outs1 :: 'e py_error + int list)"
    and n1: "length outs1 = n"
    and v1: "\<And>k. k < n \<Longrightarrow> conflict_value (pairs_at cs k - {0}) (outs1 ! k)"
    by blast
  from snoc.prems(2) c have o: "0 \<le> o'" "o' < int n" and i: "0 \<le> i" by simp_all
  then have ix: "py_index (length outs1) o' = Some (nat o')"
    by (simp add: py_index_def n1)
  define v' where "v' = (if outs1 ! nat o' \<noteq> 0 then oops_value else i)"
  have l2: "conflict_loop (cs @ [c]) (replicate n 0)
      = (Inr (outs1[nat o' := v']) :: 'e py_error + int list)"
    by (simp add: conflict_loop_append l1 c getitem_def setitem_def ix v'_def)
  have "conflict_value (pairs_at (cs @ [c]) k - {0}) ((outs1[nat o' := v']) ! k)"
    if k: "k < n" for k
  proof (cases "o' = int k")
    case True
    have "\<forall>i' \<in> pairs_at cs k. 0 \<le> i' \<and> i' < i"
      using sorted_snoc_less [OF snoc.prems(1) [unfolded c] _ True] rng
      by (auto simp: pairs_at_def)
    from conflict_value_step [OF v1 [OF k] this i] True k n1 show ?thesis
      by (simp add: c pairs_at_snoc v'_def)
  next
    case False
    with o have "nat o' \<noteq> k" by auto
    with False v1 [OF k] show ?thesis
      by (simp add: c pairs_at_snoc)
  qed
  with l2 n1 show ?case by simp
qed

lemma pairs_at_zip:
  assumes "set cs = set (zip rlabels labels)" "length rlabels = length labels"
  shows "pairs_at cs k = overlap rlabels labels (int k)"
  using assms by (auto simp: pairs_at_def overlap_def in_set_zip)

lemma np_amax_nonempty:
  "xs \<noteq> [] \<Longrightarrow> np_amax xs = (Inr (Max (set xs)) :: 'e py_error + int)"
  by (simp add: np_amax_def)

lemma propagate_setup:
  assumes len: "length rlabels = length labels" and ne: "labels \<noteq> []"
    and rl: "\<forall>a \<in> set rlabels. 0 \<le> a"
    and setz: "set cs = set (zip rlabels labels)"
  shows "0 \<le> Max (set rlabels)"
    and "\<forall>(o', i) \<in> set cs. 0 \<le> o' \<and> o' < int (nat (Max (set rlabels) + 1))"
    and "\<forall>i \<in> set rlabels. 0 \<le> i \<and> i < int (nat (Max (set rlabels) + 1))"
proof -
  from len ne have ne1: "rlabels \<noteq> []" by auto
  then have "Max (set rlabels) \<in> set rlabels" by (intro Max_in) simp_all
  with rl show m: "0 \<le> Max (set rlabels)" by blast
  show r: "\<forall>i \<in> set rlabels. 0 \<le> i \<and> i < int (nat (Max (set rlabels) + 1))"
    using rl m by (auto simp: less_Suc_eq_le intro: Max_ge)
  show "\<forall>(o', i) \<in> set cs. 0 \<le> o' \<and> o' < int (nat (Max (set rlabels) + 1))"
    using r setz by (auto dest: set_zip_leftD)
qed

text \<open>
  Where no packed value leaves the int32 range, \<open>propagate_labels_simple\<close> gives every
  pixel of a component the largest label the component overlaps (0 when it overlaps
  only the background label), and every background pixel 0.
\<close>

lemma propagate_labels_simple_largest:
  assumes lab: "label routine np_array regions = Inr (rlabels, n)"
    and len: "length rlabels = length labels" and ne: "labels \<noteq> []"
    and rl: "\<forall>a \<in> set rlabels. 0 \<le> a"
    and lb: "\<forall>b \<in> set labels. 0 \<le> b \<and> b < q"
    and fits: "\<forall>(a, b) \<in> set (zip rlabels labels). a * q + b < 2 ^ 31"
  shows "\<exists>out. propagate_labels_simple routine np_array regions labels = Inr out
      \<and> length out = length labels
      \<and> (\<forall>p < length labels.
            out ! p = (if rlabels ! p = 0 then 0 else Max (overlap rlabels labels (rlabels ! p))))"
proof -
  from len ne have ne1: "rlabels \<noteq> []" by auto
  from lb have lb0: "\<forall>b \<in> set labels. 0 \<le> b" and lbq: "\<forall>b \<in> set labels. b < q" by auto
  from correspondences_exact [OF len ne1 rl lb0 lbq fits, where ?'e = 'a]
  obtain os ns where
    cor: "correspondences rlabels labels = (Inr (os, ns) :: 'a py_error + int list \<times> int list)"
    and setz: "set (zip os ns) = set (zip rlabels labels)"
    and srt: "sorted_wrt (<) (map (\<lambda>(a, b). a * q + b) (zip os ns))"
    by blast
  define m where "m = Max (set rlabels)"
  define outs0 :: "int list" where "outs0 = replicate (nat (m + 1)) 0"
  note su = propagate_setup [OF len ne rl setz, folded m_def]
  have n0: "length outs0 = nat (m + 1)" by (simp add: outs0_def)
  from assign_loop_sorted [OF srt, of outs0, where ?'e = 'a] su(2) obtain outs1 where
    l1: "assign_loop (zip os ns) outs0 = (Inr outs1 :: 'a py_error + int list)"
    and n1: "length outs1 = nat (m + 1)"
    and v1: "\<And>k. k < nat (m + 1) \<Longrightarrow>
        outs1 ! k = (if pairs_at (zip os ns) k = {} then outs0 ! k else Max (pairs_at (zip os ns) k))"
    unfolding n0 by blast
  have l2: "setitem outs1 0 0 = (Inr (outs1[0 := 0]) :: 'a py_error + int list)"
    using su(1) by (simp add: setitem_def py_index_def n1)
  have l3: "take_items (outs1[0 := 0]) rlabels
      = (Inr (map (\<lambda>i. (outs1[0 := 0]) ! nat i) rlabels) :: 'a py_error + int list)"
    by (rule take_items_in_range) (use su(3) n1 in simp)
  have res: "propagate_labels_simple routine np_array regions labels
      = Inr (map (\<lambda>i. (outs1[0 := 0]) ! nat i) rlabels)"
    by (simp add: propagate_labels_simple_def lab cor np_amax_nonempty [OF ne1]
        l1 [unfolded outs0_def m_def] l2 l3)
  have "(outs1[0 := 0]) ! nat (rlabels ! p)
      = (if rlabels ! p = 0 then 0 else Max (overlap rlabels labels (rlabels ! p)))"
    if p: "p < length labels" for p
  proof (cases "rlabels ! p = 0")
    case True
    with su(1) n1 show ?thesis by simp
  next
    case False
    define k where "k = nat (rlabels ! p)"
    from p len have mem: "rlabels ! p \<in> set rlabels" by simp
    with su(3) have b: "0 \<le> rlabels ! p \<and> rlabels ! p < int (nat (m + 1))"
      by blast
    then have ik: "int k = rlabels ! p"
      by (simp add: k_def)
    with b have "int k < int (nat (m + 1))"
      by (simp only:)
    with ik have k: "k < nat (m + 1)" "int k = rlabels ! p"
      by (simp_all only: of_nat_less_iff)
    with False have k0: "k \<noteq> 0" by auto
    have pa: "pairs_at (zip os ns) k = overlap rlabels labels (rlabels ! p)"
      using pairs_at_zip [OF setz len, of k] k by simp
    moreover have "labels ! p \<in> overlap rlabels labels (rlabels ! p)"
      using p by (auto simp: overlap_def)
    ultimately have "pairs_at (zip os ns) k \<noteq> {}" by auto
    with v1 [OF k(1)] pa have "outs1 ! k = Max (overlap rlabels labels (rlabels ! p))"
      by simp
    with False k0 show ?thesis
      by (simp add: k_def)
  qed
  with res len show ?thesis by simp
qed


text \<open>
  Where no packed value leaves the int32 range and \<open>conflict\<close> is an int32 value,
  \<open>propagate_labels\<close> gives every pixel of a component: 0 when the component overlaps
  no nonzero label, the label when it overlaps exactly one, and \<open>conflict\<close> when it
  overlaps two or more; every background pixel gets 0.
\<close>

lemma propagate_labels_conflicts:
  assumes lab: "label routine np_array img = Inr (rlabels, n)"
    and len: "length rlabels = length labels" and ne: "labels \<noteq> []"
    and rl: "\<forall>a \<in> set rlabels. 0 \<le> a"
    and lb: "\<forall>b \<in> set labels. 0 \<le> b \<and> b < q"
    and fits: "\<forall>(a, b) \<in> set (zip rlabels labels). a * q + b < 2 ^ 31"
    and cf: "- (2 ^ 31) \<le> conflict" "conflict < 2 ^ 31"
  shows "\<exists>out. propagate_labels routine np_array img labels conflict = Inr out
      \<and> length out = length labels
      \<and> (\<forall>p < length labels.
            (rlabels ! p = 0 \<longrightarrow> out ! p = 0)
            \<and> (rlabels ! p \<noteq> 0 \<longrightarrow>
                 (overlap rlabels labels (rlabels ! p) - {0} = {} \<longrightarrow> out ! p = 0)
                 \<and> (\<forall>v. overlap rlabels labels (rlabels ! p) - {0} = {v} \<longrightarrow> out ! p = v)
                 \<and> ((\<exists>x \<in> overlap rlabels labels (rlabels ! p) - {0}.
                       \<exists>y \<in> overlap rlabels labels (rlabels ! p) - {0}. x \<noteq> y)
                      \<longrightarrow> out ! p = conflict)))"
proof -
  from len ne have ne1: "rlabels \<noteq> []" by auto
  from lb have lb0: "\<forall>b \<in> set labels. 0 \<le> b" and lbq: "\<forall>b \<in> set labels. b < q" by auto
  from correspondences_exact [OF len ne1 rl lb0 lbq fits, where ?'e = 'a]
  obtain os ns where
    cor: "correspondences rlabels labels = (Inr (os, ns) :: 'a py_error + int list \<times> int list)"
    and setz: "set (zip os ns) = set (zip rlabels labels)"
    and srt: "sorted_wrt (<) (map (\<lambda>(a, b). a * q + b) (zip os ns))"
    by blast
  define m where "m = Max (set rlabels)"
  note su = propagate_setup [OF len ne rl setz, folded m_def]
  have rng: "\<forall>(o', i) \<in> set (zip os ns). 0 \<le> o' \<and> o' < int (nat (m + 1)) \<and> 0 \<le> i"
  proof -
    have "0 \<le> i" if "(o', i) \<in> set (zip os ns)" for o' i
      using that setz lb0 by (auto dest: set_zip_rightD)
    with su(2) show ?thesis by auto
  qed
  from conflict_loop_sorted [OF srt rng, where ?'e = 'a] obtain outs1 where
    l1: "conflict_loop (zip os ns) (replicate (nat (m + 1)) 0)
        = (Inr outs1 :: 'a py_error + int list)"
    and n1: "length outs1 = nat (m + 1)"
    and v1: "\<And>k. k < nat (m + 1) \<Longrightarrow> conflict_value (pairs_at (zip os ns) k - {0}) (outs1 ! k)"
    by blast
  define outs2 where "outs2 = map (\<lambda>v. if v = oops_value then conflict else v) outs1"
  have l2: "replace_oops conflict outs1 = (Inr outs2 :: 'a py_error + int list)"
    using cf by (simp add: replace_oops_def outs2_def)
  have n2: "length outs2 = nat (m + 1)"
    by (simp add: outs2_def n1)
  have l3: "setitem outs2 0 0 = (Inr (outs2[0 := 0]) :: 'a py_error + int list)"
    using su(1) by (simp add: setitem_def py_index_def n2)
  have l4: "take_items (outs2[0 := 0]) rlabels
      = (Inr (map (\<lambda>i. (outs2[0 := 0]) ! nat i) rlabels) :: 'a py_error + int list)"
    by (rule take_items_in_range) (use su(3) n2 in simp)
  have res: "propagate_labels routine np_array img labels conflict
      = Inr (map (\<lambda>i. (outs2[0 := 0]) ! nat i) rlabels)"
    by (simp add: propagate_labels_def lab cor np_amax_nonempty [OF ne1]
        l1 [unfolded m_def] l2 l3 l4)
  have oz: "oops_value < 0" by (simp add: oops_value_def)
  have "(rlabels ! p = 0 \<longrightarrow> (outs2[0 := 0]) ! nat (rlabels ! p) = 0)
      \<and> (rlabels ! p \<noteq> 0 \<longrightarrow>
           (overlap rlabels labels (rlabels ! p) - {0} = {}
              \<longrightarrow> (outs2[0 := 0]) ! nat (rlabels ! p) = 0)
           \<and> (\<forall>v. overlap rlabels labels (rlabels ! p) - {0} = {v}
                \<longrightarrow> (outs2[0 := 0]) ! nat (rlabels ! p) = v)
           \<and> ((\<exists>x \<in> overlap rlabels labels (rlabels ! p) - {0}.
                 \<exists>y \<in> overlap rlabels labels (rlabels ! p) - {0}. x \<noteq> y)
                \<longrightarrow> (outs2[0 := 0]) ! nat (rlabels ! p) = conflict))"
    if p: "p < length labels" for p
  proof (cases "rlabels ! p = 0")
    case True
    with su(1) n2 show ?thesis by simp
  next
    case False
    define k where "k = nat (rlabels ! p)"
    define N where "N = overlap rlabels labels (rlabels ! p) - {0}"
    from p len have mem: "rlabels ! p \<in> set rlabels" by simp
    with su(3) have b: "0 \<le> rlabels ! p \<and> rlabels ! p < int (nat (m + 1))"
      by blast
    then have ik: "int k = rlabels ! p"
      by (simp add: k_def)
    with b have "int k < int (nat (m + 1))"
      by (simp only:)
    with ik have k: "k < nat (m + 1)" "int k = rlabels ! p"
      by (simp_all only: of_nat_less_iff)
    with False have k0: "k \<noteq> 0" by auto
    have pa: "pairs_at (zip os ns) k - {0} = N"
      using pairs_at_zip [OF setz len, of k] k by (simp add: N_def)
    have Npos: "0 \<le> x" if "x \<in> N" for x
      using that lb0 by (auto simp: N_def overlap_def)
    from v1 [OF k(1)] have cv: "conflict_value N (outs1 ! k)"
      by (simp add: pa)
    have e: "(outs2[0 := 0]) ! nat (rlabels ! p)
        = (if outs1 ! k = oops_value then conflict else outs1 ! k)"
      using k0 k(1) n1 by (simp add: k_def [symmetric] outs2_def)
    have "(N = {} \<longrightarrow> (if outs1 ! k = oops_value then conflict else outs1 ! k) = 0)
        \<and> (\<forall>v. N = {v} \<longrightarrow> (if outs1 ! k = oops_value then conflict else outs1 ! k) = v)
        \<and> ((\<exists>x \<in> N. \<exists>y \<in> N. x \<noteq> y)
             \<longrightarrow> (if outs1 ! k = oops_value then conflict else outs1 ! k) = conflict)"
      using cv oz Npos unfolding conflict_value_def by (elim disjE conjE exE) auto
    with False show ?thesis
      unfolding e N_def by blast
  qed
  with res len show ?thesis by simp
qed

subsection \<open>select_regions for a positive nbest\<close>

lemma argsort_pairs:
  "set (sort_key fst (zip scores [0..<length scores])) = {(scores ! i, i) | i. i < length scores}"
  by (auto simp: set_zip)

lemma length_np_argsort: "length (np_argsort scores) = length scores"
  by (simp add: np_argsort_def)

lemma set_np_argsort: "set (np_argsort scores) = {0..<length scores}"
proof -
  have "set (np_argsort scores) = set (map snd (zip scores [0..<length scores]))"
    by (simp only: np_argsort_def set_map set_sort)
  also have "map snd (zip scores [0..<length scores]) = [0..<length scores]"
    by (rule map_snd_zip) simp
  finally show ?thesis by simp
qed

lemma distinct_np_argsort: "distinct (np_argsort scores)"
proof -
  have "distinct (zip scores [0..<length scores])"
    by (rule distinct_zipI2) simp
  moreover have "inj_on snd (set (zip scores [0..<length scores]))"
    by (auto simp: inj_on_def set_zip)
  ultimately show ?thesis
    by (simp add: np_argsort_def distinct_map)
qed

lemma sorted_np_argsort: "sorted (map (\<lambda>i. scores ! i) (np_argsort scores))"
proof -
  define zs where "zs = sort_key fst (zip scores [0..<length scores])"
  have "\<forall>z \<in> set zs. scores ! snd z = fst z"
    unfolding zs_def argsort_pairs by auto
  then have "map (\<lambda>i. scores ! i) (map snd zs) = map fst zs"
    by (simp add: comp_def)
  moreover have "sorted (map fst zs)"
    by (simp add: zs_def)
  ultimately have "sorted (map (\<lambda>i. scores ! i) (map snd zs))"
    by (simp only:)
  then show ?thesis
    by (simp only: np_argsort_def zs_def)
qed

lemma np_argsort_sorts: "sorts scores (np_argsort scores)"
  by (simp add: sorts_def distinct_np_argsort set_np_argsort sorted_np_argsort)

lemma sorts_length:
  assumes "sorts scores best"
  shows "length best = length scores"
proof -
  from assms have "distinct best" "set best = {0..<length scores}"
    by (simp_all add: sorts_def)
  then have "length best = card {0..<length scores}"
    by (metis distinct_card)
  then show ?thesis by simp
qed

lemma py_tail_positive: "1 \<le> k \<Longrightarrow> py_tail k xs = drop (length xs - nat k) xs"
  by (auto simp: py_tail_def Let_def max_def intro!: arg_cong [where f = "\<lambda>n. drop n xs"])

lemma py_tail_zero: "py_tail 0 xs = xs"
  by (simp add: py_tail_def)

text \<open>Fewer than \<open>k\<close> scores are above the score of an index among the last \<open>k\<close> of the sorted order.\<close>

lemma tail_among_best:
  assumes srt: "sorts scores best"
    and i: "i \<in> set (drop (length scores - k) best)"
  shows "card {j. j < length scores \<and> scores ! i < scores ! j} < k"
proof -
  define n where "n = length scores"
  have nb: "length best = n" by (simp add: n_def sorts_length [OF srt])
  from srt have sb: "set best = {0..<n}" and so: "sorted (map (\<lambda>i. scores ! i) best)"
    by (simp_all add: sorts_def n_def)
  from i obtain t where t: "n - k \<le> t" "t < n" "best ! t = i"
    unfolding n_def [symmetric]
    by (auto simp: in_set_conv_nth nb) (metis add.commute le_add1 less_diff_conv)
  have above: "j \<in> set (drop (Suc t) best)" if "j < n" "scores ! i < scores ! j" for j
  proof -
    from that(1) have "j \<in> set best"
      by (simp add: sb)
    then obtain u where u: "u < n" "best ! u = j"
      by (auto simp: in_set_conv_nth nb)
    have "t < u"
    proof (rule ccontr)
      assume "\<not> t < u"
      then have "u \<le> t" by simp
      with so t(2) have "scores ! (best ! u) \<le> scores ! (best ! t)"
        by (simp add: sorted_iff_nth_mono nb)
      with u t that(2) show False by simp
    qed
    with u show ?thesis
      by (auto simp: in_set_conv_nth nb intro!: exI [of _ "u - Suc t"])
  qed
  then have "{j. j < length scores \<and> scores ! i < scores ! j} \<subseteq> set (drop (Suc t) best)"
    by (auto simp: n_def)
  then have "card {j. j < length scores \<and> scores ! i < scores ! j} \<le> card (set (drop (Suc t) best))"
    by (intro card_mono) simp_all
  also have "\<dots> \<le> length (drop (Suc t) best)"
    by (rule card_length)
  also have "\<dots> < k"
    using t nb by simp
  finally show ?thesis .
qed


lemma keep_loop_result:
  assumes "\<forall>i \<in> set idx. i < length scores" "length keep = Suc (length scores)"
  shows "\<exists>keep'. keep_loop scores min_score idx keep = (Inr keep' :: 'e py_error + int list)
      \<and> length keep' = length keep
      \<and> (\<forall>k < length keep.
            keep' ! k = (if k \<noteq> 0 \<and> k - 1 \<in> set idx \<and> min_score < scores ! (k - 1)
                         then 1 else keep ! k))"
  using assms
proof (induction idx arbitrary: keep)
  case Nil
  then show ?case by simp
next
  case (Cons i rest)
  from Cons.prems have i: "i < length scores" and rest: "\<forall>i \<in> set rest. i < length scores"
    by simp_all
  have g: "getitem scores (int i) = (Inr (scores ! i) :: 'e py_error + 'a)"
    using i by (simp add: getitem_def py_index_def)
  show ?case
  proof (cases "scores ! i \<le> min_score")
    case True
    from Cons.IH [OF rest Cons.prems(2)] obtain keep' where
      k: "keep_loop scores min_score rest keep = (Inr keep' :: 'e py_error + int list)"
      "length keep' = length keep"
      "\<And>k. k < length keep \<Longrightarrow>
        keep' ! k = (if k \<noteq> 0 \<and> k - 1 \<in> set rest \<and> min_score < scores ! (k - 1)
                     then 1 else keep ! k)"
      by blast
    have "keep_loop scores min_score (i # rest) keep = (Inr keep' :: 'e py_error + int list)"
      using True by (simp add: g k(1))
    moreover have "keep' ! k = (if k \<noteq> 0 \<and> k - 1 \<in> set (i # rest) \<and> min_score < scores ! (k - 1)
        then 1 else keep ! k)" if "k < length keep" for k
      using k(3) [OF that] True by auto
    ultimately show ?thesis using k(2) by blast
  next
    case False
    define keep1 where "keep1 = keep[Suc i := 1]"
    have s: "setitem keep (int i + 1) 1 = (Inr keep1 :: 'e py_error + int list)"
      using i Cons.prems(2) by (simp add: setitem_def py_index_def keep1_def nat_add_distrib)
    have n1: "length keep1 = Suc (length scores)"
      using Cons.prems(2) by (simp add: keep1_def)
    from Cons.IH [OF rest n1] obtain keep' where
      k: "keep_loop scores min_score rest keep1 = (Inr keep' :: 'e py_error + int list)"
      "length keep' = length keep1"
      "\<And>k. k < length keep1 \<Longrightarrow>
        keep' ! k = (if k \<noteq> 0 \<and> k - 1 \<in> set rest \<and> min_score < scores ! (k - 1)
                     then 1 else keep1 ! k)"
      by blast
    have "keep_loop scores min_score (i # rest) keep = (Inr keep' :: 'e py_error + int list)"
      using False by (simp add: g s k(1))
    moreover have "keep' ! k = (if k \<noteq> 0 \<and> k - 1 \<in> set (i # rest) \<and> min_score < scores ! (k - 1)
        then 1 else keep ! k)" if "k < length keep" for k
    proof (cases "k = Suc i")
      case True
      from False have "min_score < scores ! i" by simp
      with k(3) [of k] that n1 Cons.prems(2) True show ?thesis
        by (simp add: keep1_def)
    next
      case ne: False
      then have "k \<noteq> 0 \<Longrightarrow> k - 1 \<noteq> i" by auto
      with k(3) [of k] that n1 Cons.prems(2) ne show ?thesis
        by (auto simp: keep1_def)
    qed
    ultimately show ?thesis using k(2) n1 Cons.prems(2) by auto
  qed
qed

text \<open>
  For \<open>nbest\<close> of at least 1, and whatever order \<open>np.argsort\<close> gives to equal
  scores, \<open>select_regions\<close> keeps at most \<open>nbest\<close> components:
  each scores above \<open>min\<close>, and fewer than \<open>nbest\<close> components score above it. The
  mask is 1 on the pixels of the kept components and 0 elsewhere. (Component \<open>i + 1\<close>
  is the one \<open>objects ! i\<close> describes.)
\<close>

lemma select_regions_keeps_best:
  assumes lab: "label label_routine np_array binary = (Inr (labels, n) :: 'e + int list \<times> int)"
    and obj: "find_objects objects_routine np_array_labels labels = Inr objects"
    and rng: "\<forall>l \<in> set labels. 0 \<le> l \<and> l \<le> int (length objects)"
    and srt: "sorts (map f objects) (argsort (map f objects))"
    and nb: "1 \<le> nbest"
  shows "\<exists>out kept.
      select_regions label_routine np_array objects_routine np_array_labels argsort
        binary f min_score nbest = Inr out
      \<and> length out = length labels
      \<and> distinct kept \<and> length kept \<le> nat nbest
      \<and> (\<forall>i \<in> set kept. i < length objects \<and> min_score < f (objects ! i)
            \<and> card {j. j < length objects \<and> f (objects ! i) < f (objects ! j)} < nat nbest)
      \<and> (\<forall>p < length labels.
            out ! p = (if labels ! p \<noteq> 0 \<and> nat (labels ! p) - 1 \<in> set kept then 1 else 0))"
proof -
  define scores where "scores = map f objects"
  define best where "best = argsort scores"
  define tail where "tail = drop (length best - nat nbest) best"
  define kept where "kept = filter (\<lambda>i. min_score < scores ! i) tail"
  define keep :: "int list" where "keep = replicate (length objects + 1) 0"
  have ls: "length scores = length objects" by (simp add: scores_def)
  have sb: "sorts scores best"
    using srt by (simp add: scores_def best_def)
  have lb: "length best = length objects" by (simp add: sorts_length [OF sb] ls)
  have pt: "py_tail nbest best = tail"
    using nb by (simp add: py_tail_positive tail_def)
  have tl: "\<forall>i \<in> set tail. i < length scores"
    using sb by (auto simp: tail_def sorts_def dest: in_set_dropD)
  have lk: "length keep = Suc (length scores)" by (simp add: keep_def ls)
  from keep_loop_result [OF tl lk, where ?'e = 'e and min_score = min_score] obtain keep' where
    kl: "keep_loop scores min_score tail keep = (Inr keep' :: 'e py_error + int list)"
    and n': "length keep' = Suc (length objects)"
    and v': "\<And>k. k < Suc (length objects) \<Longrightarrow>
        keep' ! k = (if k \<noteq> 0 \<and> k - 1 \<in> set tail \<and> min_score < scores ! (k - 1)
                     then 1 else keep ! k)"
    unfolding lk ls by blast
  have ti: "take_items keep' labels = (Inr (map (\<lambda>i. keep' ! nat i) labels) :: 'e py_error + int list)"
    by (rule take_items_in_range) (use rng n' in auto)
  have kl': "keep_loop (map f objects) min_score tail (replicate (Suc (length objects)) 0)
      = (Inr keep' :: 'e py_error + int list)"
    using kl by (simp add: scores_def keep_def del: replicate.simps)
  have res: "select_regions label_routine np_array objects_routine np_array_labels argsort
      binary f min_score nbest = Inr (map (\<lambda>i. keep' ! nat i) labels)"
    by (simp add: select_regions_def lab obj Let_def pt [unfolded best_def scores_def]
        kl' ti del: replicate.simps)
  have d: "distinct kept"
    using sb by (simp add: kept_def tail_def sorts_def)
  have l: "length kept \<le> nat nbest"
  proof -
    have "length kept \<le> length tail" by (simp add: kept_def)
    also have "\<dots> \<le> nat nbest" by (simp add: tail_def)
    finally show ?thesis .
  qed
  have k: "i < length objects \<and> min_score < f (objects ! i)
      \<and> card {j. j < length objects \<and> f (objects ! i) < f (objects ! j)} < nat nbest"
    if "i \<in> set kept" for i
  proof -
    from that have it: "i \<in> set tail" and sc: "min_score < scores ! i"
      by (simp_all add: kept_def)
    from it tl ls have i: "i < length objects" by auto
    from it have "i \<in> set (drop (length scores - nat nbest) best)"
      by (simp add: tail_def lb ls)
    from tail_among_best [OF sb this]
    have "card {j. j < length scores \<and> scores ! i < scores ! j} < nat nbest" .
    moreover have "{j. j < length scores \<and> scores ! i < scores ! j}
        = {j. j < length objects \<and> f (objects ! i) < f (objects ! j)}"
      using i by (auto simp: scores_def)
    ultimately show ?thesis
      using i sc by (simp add: scores_def)
  qed
  have o: "map (\<lambda>i. keep' ! nat i) labels ! p
      = (if labels ! p \<noteq> 0 \<and> nat (labels ! p) - 1 \<in> set kept then 1 else 0)"
    if p: "p < length labels" for p
  proof -
    from p rng have b: "0 \<le> labels ! p" "labels ! p \<le> int (length objects)"
      by (auto dest: nth_mem)
    then have kk: "nat (labels ! p) < Suc (length objects)" by linarith
    have z: "keep ! nat (labels ! p) = 0"
      using kk by (simp add: keep_def del: replicate.simps)
    have "nat (labels ! p) - 1 \<in> set kept \<longleftrightarrow>
        nat (labels ! p) - 1 \<in> set tail \<and> min_score < scores ! (nat (labels ! p) - 1)"
      by (simp add: kept_def)
    with v' [OF kk] z b(1) p show ?thesis
      by auto
  qed
  from res d l k o show ?thesis
    by (intro exI [of _ "map (\<lambda>i. keep' ! nat i) labels"] exI [of _ kept]) simp
qed

end
